theory Spec2Isabelle
  imports Complex_Main "HOL-Library.AList"
begin

section \<open>Data model of \<open>metaclust.map.py\<close>\<close>

text \<open>
  The four statistics functions of \<open>metaclust.map.py\<close> read tab-separated text files line
  by line, split every line into its fields and convert the numeric fields with
  \<open>float\<close> (or \<open>int\<close> for the core-region file). The embedding starts after that
  conversion: a file is the list of its parsed lines.

  Python's \<open>float\<close> values are modelled by rationals, and a division whose divisor
  is zero raises \<open>ZeroDivisionError\<close>. Infinities and NaN are not modelled.
  \<open>computetotalcoverage\<close> and \<open>calculateTPM\<close> take the rounding that follows each of
  their float operations as a parameter \<open>rnd\<close>; the program is the instance
  \<open>rnd = binary64\<close>, rounding to the nearest double. \<open>calculateRPKM\<close> and
  \<open>computecorecoverage\<close> are modelled without rounding: what is proved about them is
  their control flow, an upper bound that rounding keeps, and values that binary64
  represents exactly.

  A Python \<open>dict\<close> keeps its keys in insertion order; it is modelled by an association
  list with distinct keys, where \<open>d[k] = v\<close> is \<^const>\<open>AList.update\<close> (overwrite in
  place, or append a new key at the end), \<open>k in d\<close> is \<open>map_of d k \<noteq> None\<close>, and a read
  \<open>d[k]\<close> of a missing key raises \<open>KeyError\<close>.
\<close>

datatype py_error = ZeroDivisionError | KeyError | IndexError

type_synonym pyfloat = rat

type_synonym 'v dict = "(string \<times> 'v) list"

text \<open>
  The rounding that rounds nothing. It is not the arithmetic of the program; it serves only
  to say which rates are summands of the rate sum of \<open>calculateTPM\<close>, apart from the order
  and the rounding of the additions.
\<close>

definition exact :: "pyfloat \<Rightarrow> pyfloat" where
  "exact x = x"

text \<open>
  Rounding to the nearest binary64 value, ties to even: the magnitude is halved until it is
  below \<open>2^53\<close> and doubled until it is at least \<open>2^52\<close>, rounded to an integer there,
  and scaled back. The exponent is not bounded, so overflow and subnormal numbers are not
  modelled.
\<close>

definition round_half_even :: "rat \<Rightarrow> int" where
  "round_half_even q =
     (let f = \<lfloor>q\<rfloor>; d = q - of_int f
      in if d < 1 / 2 then f else if 1 / 2 < d then f + 1 else if even f then f else f + 1)"

function scale_down :: "rat \<Rightarrow> rat \<Rightarrow> rat \<times> rat" where
  "scale_down m u = (if 9007199254740992 \<le> m then scale_down (m / 2) (2 * u) else (m, u))"
  by pat_completeness auto
termination
proof (relation "measure (\<lambda>(m, u). nat \<lfloor>m\<rfloor>)")
  show "wf (measure (\<lambda>(m, u). nat \<lfloor>m\<rfloor>))" by simp
next
  fix m u :: rat
  assume a: "9007199254740992 \<le> m"
  have "of_int \<lfloor>m / 2\<rfloor> \<le> m / 2" by (rule of_int_floor_le)
  moreover have "m < of_int \<lfloor>m\<rfloor> + 1" by linarith
  ultimately have "(of_int \<lfloor>m / 2\<rfloor> :: rat) < of_int \<lfloor>m\<rfloor>" using a by linarith
  then have "\<lfloor>m / 2\<rfloor> < \<lfloor>m\<rfloor>" by (simp only: of_int_less_iff)
  moreover from a have "0 < \<lfloor>m\<rfloor>" by (simp add: less_floor_iff)
  ultimately show "((m / 2, 2 * u), (m, u)) \<in> measure (\<lambda>(m, u). nat \<lfloor>m\<rfloor>)"
    by simp
qed

function scale_up :: "rat \<Rightarrow> rat \<Rightarrow> rat \<times> rat" where
  "scale_up m u =
     (if 0 < m \<and> m < 4503599627370496 then scale_up (2 * m) (u / 2) else (m, u))"
  by pat_completeness auto
termination
proof (relation "measure (\<lambda>(m, u). nat \<lceil>4503599627370496 / m\<rceil>)")
  show "wf (measure (\<lambda>(m, u). nat \<lceil>4503599627370496 / m\<rceil>))" by simp
next
  fix m u :: rat
  assume a: "0 < m \<and> m < 4503599627370496"
  define y where "y = 4503599627370496 / m"
  from a have y: "1 < y" by (simp add: y_def)
  then have "1 < \<lceil>y\<rceil>" by (simp add: less_ceiling_iff)
  then have c2: "(2 :: rat) \<le> of_int \<lceil>y\<rceil>" by linarith
  have "y \<le> of_int \<lceil>y\<rceil>" by (rule le_of_int_ceiling)
  moreover have "of_int \<lceil>y / 2\<rceil> < y / 2 + 1" by linarith
  ultimately have "(of_int \<lceil>y / 2\<rceil> :: rat) < of_int \<lceil>y\<rceil>" using c2 by linarith
  then have lt: "\<lceil>y / 2\<rceil> < \<lceil>y\<rceil>" by (simp only: of_int_less_iff)
  have "4503599627370496 / (2 * m) = y / 2" by (simp add: y_def)
  then have "\<lceil>4503599627370496 / (2 * m)\<rceil> = \<lceil>y / 2\<rceil>" by (rule arg_cong)
  with lt have "\<lceil>4503599627370496 / (2 * m)\<rceil> < \<lceil>4503599627370496 / m\<rceil>"
    by (simp only: y_def)
  moreover from \<open>1 < \<lceil>y\<rceil>\<close> have "0 < \<lceil>4503599627370496 / m\<rceil>"
    by (simp only: y_def)
  ultimately have "nat \<lceil>4503599627370496 / (2 * m)\<rceil> < nat \<lceil>4503599627370496 / m\<rceil>"
    by (simp only: zless_nat_conj simp_thms)
  then show "((2 * m, u / 2), (m, u)) \<in> measure (\<lambda>(m, u). nat \<lceil>4503599627370496 / m\<rceil>)"
    by (simp only: in_measure prod.case)
qed

declare scale_down.simps [simp del] scale_up.simps [simp del]

definition binary64 :: "pyfloat \<Rightarrow> pyfloat" where
  "binary64 q =
     (if q = 0 then 0
      else let (m, u) = scale_down \<bar>q\<bar> 1; (m, u) = scale_up m u
           in sgn q * of_int (round_half_even m) * u)"

definition dict_get :: "'v dict \<Rightarrow> string \<Rightarrow> py_error + 'v" where
  "dict_get d k = (case map_of d k of None \<Rightarrow> Inl KeyError | Some v \<Rightarrow> Inr v)"

text \<open>
  One line of a bedgraph file, \<open>cluster, start, end, cov = line.split("\t")\<close>, with the
  three numeric fields already converted by \<open>float\<close>.
\<close>

record bg_line =
  bg_cluster :: string
  bg_start :: pyfloat
  bg_end :: pyfloat
  bg_cov :: pyfloat

section \<open>\<open>computetotalcoverage\<close>\<close>

text \<open>
  The first loop of \<open>computetotalcoverage\<close> keeps two dictionaries: \<open>nocov\<close>, the number
  of bases without coverage per cluster, and \<open>clusterlen\<close>, the end of the cluster's line
  seen last.
\<close>

record cov_state =
  nocov :: "pyfloat dict"
  clusterlen :: "pyfloat dict"

definition totalcov_line :: "(pyfloat \<Rightarrow> pyfloat) \<Rightarrow> cov_state \<Rightarrow> bg_line \<Rightarrow> cov_state" where
  "totalcov_line rnd st l =
     (let clen = AList.update (bg_cluster l) (bg_end l) (clusterlen st);
          nc = (if map_of (nocov st) (bg_cluster l) = None
                then AList.update (bg_cluster l) 0 (nocov st) else nocov st);
          nc' = (if bg_cov l = 0
                 then AList.map_entry (bg_cluster l)
                        (\<lambda>v. rnd (v + rnd (bg_end l - bg_start l))) nc
                 else nc)
      in \<lparr>nocov = nc', clusterlen = clen\<rparr>)"

definition totalcov_scan :: "(pyfloat \<Rightarrow> pyfloat) \<Rightarrow> bg_line list \<Rightarrow> cov_state" where
  "totalcov_scan rnd bg = foldl (totalcov_line rnd) \<lparr>nocov = [], clusterlen = []\<rparr> bg"

text \<open>
  The second loop, \<open>for key in nocov.keys()\<close>: the division is not inside any
  \<open>try\<close>, so a zero \<open>clusterlen[key]\<close> ends the whole call with
  \<open>ZeroDivisionError\<close>.
\<close>

fun totalcov_loop ::
  "(pyfloat \<Rightarrow> pyfloat) \<Rightarrow> string list \<Rightarrow> cov_state \<Rightarrow> pyfloat dict
     \<Rightarrow> py_error + pyfloat dict" where
  "totalcov_loop rnd [] st total_coverage = Inr total_coverage"
| "totalcov_loop rnd (key # keys) st total_coverage =
     (case dict_get (clusterlen st) key of Inl e \<Rightarrow> Inl e
      | Inr len \<Rightarrow>
     (case dict_get (nocov st) key of Inl e \<Rightarrow> Inl e
      | Inr nc \<Rightarrow>
        if len = 0 then Inl ZeroDivisionError
        else totalcov_loop rnd keys st
               (AList.update key (rnd (rnd (len - nc) / len)) total_coverage)))"

definition computetotalcoverage ::
  "(pyfloat \<Rightarrow> pyfloat) \<Rightarrow> bg_line list \<Rightarrow> py_error + pyfloat dict" where
  "computetotalcoverage rnd bg =
     (let st = totalcov_scan rnd bg in totalcov_loop rnd (map fst (nocov st)) st [])"

subsection \<open>What the whole-cluster aggregator is meant to compute\<close>

text \<open>
  The lines of one sequence, in stream order; the number of its bases without coverage (the
  sum of \<open>end - start\<close> over its lines of depth zero); and its length, the end of the line
  of that sequence seen last.
\<close>

definition on_cluster :: "string \<Rightarrow> bg_line list \<Rightarrow> bg_line list" where
  "on_cluster s bg = filter (\<lambda>l. bg_cluster l = s) bg"

definition uncovered :: "string \<Rightarrow> bg_line list \<Rightarrow> pyfloat" where
  "uncovered s bg =
     sum_list (map (\<lambda>l. bg_end l - bg_start l) (filter (\<lambda>l. bg_cov l = 0) (on_cluster s bg)))"

definition seq_length :: "string \<Rightarrow> bg_line list \<Rightarrow> pyfloat" where
  "seq_length s bg = bg_end (last (on_cluster s bg))"

text \<open>
  The depth intervals of one sequence as the upstream coverage track produces them: every
  interval has \<open>0 \<le> start < end\<close> and a depth that is not negative, and every interval
  starts where the one before it ends. A stream is well formed when the run of every
  sequence in it is; nothing is asked of the order between different sequences.
\<close>

fun contiguous :: "bg_line list \<Rightarrow> bool" where
  "contiguous (l1 # l2 # ls) = (bg_end l1 = bg_start l2 \<and> contiguous (l2 # ls))"
| "contiguous ls = True"

definition wf_run :: "bg_line list \<Rightarrow> bool" where
  "wf_run ls \<longleftrightarrow>
     (\<forall>l\<in>set ls. 0 \<le> bg_start l \<and> bg_start l < bg_end l \<and> 0 \<le> bg_cov l) \<and> contiguous ls"

definition wf_stream :: "bg_line list \<Rightarrow> bool" where
  "wf_stream bg \<longleftrightarrow> (\<forall>s\<in>set (map bg_cluster bg). wf_run (on_cluster s bg))"

text \<open>
  Coordinates that \<open>float\<close> converts without rounding: integers up to \<open>2^53\<close>.
\<close>

definition exact_coords :: "bg_line list \<Rightarrow> bool" where
  "exact_coords bg \<longleftrightarrow>
     (\<forall>l\<in>set bg. bg_start l \<in> \<int> \<and> bg_end l \<in> \<int> \<and> bg_end l \<le> 9007199254740992)"

text \<open>
  Two streams that differ only in the value of depths that are not zero.
\<close>

definition same_but_depth :: "bg_line \<Rightarrow> bg_line \<Rightarrow> bool" where
  "same_but_depth l l' \<longleftrightarrow>
     bg_cluster l = bg_cluster l' \<and> bg_start l = bg_start l' \<and> bg_end l = bg_end l' \<and>
     (bg_cov l = bg_cov l' \<or> (bg_cov l \<noteq> 0 \<and> bg_cov l' \<noteq> 0))"

section \<open>\<open>calculateTPM\<close> and \<open>calculateRPKM\<close>\<close>

text \<open>
  One line of a counts file, \<open>cluster, length, nreads, nnoreads = line.split("\t")\<close>.
  \<open>length\<close> and \<open>nreads\<close> are converted by \<open>float\<close>; the cluster name and the last field
  are only ever used as text. \<open>calculateRPKM\<close> tests \<open>"*" not in line\<close> on the text of
  the line; since no text that \<open>float\<close> accepts contains a star and the separator is a
  tabulator, the star is in the line exactly when it is in one of the two text fields.
\<close>

record count_line =
  cl_cluster :: string
  cl_length :: pyfloat
  cl_nreads :: pyfloat
  cl_nnoreads :: string

definition star_in_line :: "count_line \<Rightarrow> bool" where
  "star_in_line l \<longleftrightarrow> CHR ''*'' \<in> set (cl_cluster l) \<or> CHR ''*'' \<in> set (cl_nnoreads l)"

record tpm_state =
  rates :: "pyfloat dict"
  ratesum :: pyfloat

text \<open>
  \<open>float(nreads)/float(length)\<close> raises \<open>ZeroDivisionError\<close> when the length is zero;
  the handler is \<open>pass\<close>, so the line leaves no trace.
\<close>

definition tpm_line :: "(pyfloat \<Rightarrow> pyfloat) \<Rightarrow> tpm_state \<Rightarrow> count_line \<Rightarrow> tpm_state" where
  "tpm_line rnd st l =
     (if cl_length l = 0 then st
      else let rate = rnd (cl_nreads l / cl_length l)
           in \<lparr>rates = AList.update (cl_cluster l) rate (rates st),
               ratesum = rnd (ratesum st + rate)\<rparr>)"

definition tpm_scan :: "(pyfloat \<Rightarrow> pyfloat) \<Rightarrow> count_line list \<Rightarrow> tpm_state" where
  "tpm_scan rnd tbl = foldl (tpm_line rnd) \<lparr>rates = [], ratesum = 0\<rparr> tbl"

fun tpm_loop ::
  "(pyfloat \<Rightarrow> pyfloat) \<Rightarrow> string list \<Rightarrow> tpm_state \<Rightarrow> pyfloat dict \<Rightarrow> py_error + pyfloat dict" where
  "tpm_loop rnd [] st tpm = Inr tpm"
| "tpm_loop rnd (key # keys) st tpm =
     (case dict_get (rates st) key of Inl e \<Rightarrow> Inl e
      | Inr r \<Rightarrow>
        tpm_loop rnd keys st
          (AList.update key (if ratesum st = 0 then 0 else rnd (r / ratesum st)) tpm))"

definition calculateTPM :: "(pyfloat \<Rightarrow> pyfloat) \<Rightarrow> count_line list \<Rightarrow> py_error + pyfloat dict" where
  "calculateTPM rnd tbl =
     (let st = tpm_scan rnd tbl in tpm_loop rnd (map fst (rates st)) st [])"

record rpkm_state =
  sum_reads :: pyfloat
  read_counts :: "pyfloat dict"
  cluster_lengths :: "pyfloat dict"

definition rpkm_line :: "rpkm_state \<Rightarrow> count_line \<Rightarrow> rpkm_state" where
  "rpkm_line st l =
     (if star_in_line l then st
      else \<lparr>sum_reads = sum_reads st + cl_nreads l,
            read_counts = AList.update (cl_cluster l) (cl_nreads l) (read_counts st),
            cluster_lengths = AList.update (cl_cluster l) (cl_length l) (cluster_lengths st)\<rparr>)"

definition rpkm_scan :: "count_line list \<Rightarrow> rpkm_state" where
  "rpkm_scan tbl = foldl rpkm_line \<lparr>sum_reads = 0, read_counts = [], cluster_lengths = []\<rparr> tbl"

fun rpkm_loop :: "string list \<Rightarrow> rpkm_state \<Rightarrow> pyfloat dict \<Rightarrow> py_error + pyfloat dict" where
  "rpkm_loop [] st rpkm = Inr rpkm"
| "rpkm_loop (key # keys) st rpkm =
     (case dict_get (read_counts st) key of Inl e \<Rightarrow> Inl e
      | Inr n \<Rightarrow>
     (case dict_get (cluster_lengths st) key of Inl e \<Rightarrow> Inl e
      | Inr len \<Rightarrow>
        rpkm_loop keys st
          (AList.update key
             (if sum_reads st * len = 0 then 0 else n / (sum_reads st * len) * 1000000000)
             rpkm)))"

definition calculateRPKM :: "count_line list \<Rightarrow> py_error + pyfloat dict" where
  "calculateRPKM tbl = (let st = rpkm_scan tbl in rpkm_loop (map fst (read_counts st)) st [])"

text \<open>
  A counts table as the data model has it: one record per reference sequence, lengths and
  read counts non-negative integers. The integers are at most \<open>2^53\<close>, so that
  \<open>float\<close> converts them without rounding, and there are at most \<open>2^52\<close> records.
\<close>

definition wf_counts :: "count_line list \<Rightarrow> bool" where
  "wf_counts tbl \<longleftrightarrow>
     distinct (map cl_cluster tbl) \<and> length tbl \<le> 4503599627370496 \<and>
     (\<forall>l\<in>set tbl. cl_length l \<in> \<int> \<and> 0 \<le> cl_length l \<and> cl_length l \<le> 9007199254740992 \<and>
                   cl_nreads l \<in> \<int> \<and> 0 \<le> cl_nreads l \<and> cl_nreads l \<le> 9007199254740992)"

section \<open>\<open>computecorecoverage\<close>\<close>

text \<open>
  One line of the core-region file, \<open>clust, start, end = line.split("\t")\<close>, with start
  and end converted by \<open>int\<close>.
\<close>

record bed_line =
  bed_clust :: string
  bed_start :: int
  bed_end :: int

record bed_state =
  core_starts :: "int list dict"
  core_ends :: "int list dict"
  core_lengths :: "int dict"

definition bed_step :: "bed_state \<Rightarrow> bed_line \<Rightarrow> bed_state" where
  "bed_step st l =
     (let clust = bed_clust l;
          cl = (if map_of (core_lengths st) clust = None
                then AList.update clust 0 (core_lengths st) else core_lengths st);
          cs = (if map_of (core_starts st) clust = None
                then AList.update clust [] (core_starts st) else core_starts st);
          ce = (if map_of (core_ends st) clust = None
                then AList.update clust [] (core_ends st) else core_ends st)
      in \<lparr>core_starts = AList.map_entry clust (\<lambda>xs. xs @ [bed_start l]) cs,
          core_ends = AList.map_entry clust (\<lambda>xs. xs @ [bed_end l]) ce,
          core_lengths = AList.map_entry clust (\<lambda>v. v + (bed_end l - bed_start l)) cl\<rparr>)"

definition bed_scan :: "bed_line list \<Rightarrow> bed_state" where
  "bed_scan bed = foldl bed_step \<lparr>core_starts = [], core_ends = [], core_lengths = []\<rparr> bed"

text \<open>
  The sweep over the bedgraph keeps the covered core bases per cluster and two variables
  shared by all clusters: \<open>flag\<close> (inside a core region) and \<open>index\<close> (the core region
  looked at). The source initialises \<open>index\<close> with \<open>{}\<close>; the first line of any bedgraph
  is of a cluster not yet in \<open>core_cov\<close> and sets it to 0 before it is read, so the model
  starts it at 0.
\<close>

record sweep_state =
  core_cov :: "pyfloat dict"
  flag :: bool
  index :: nat

definition list_get :: "'a list \<Rightarrow> nat \<Rightarrow> py_error + 'a" where
  "list_get xs i = (if i < length xs then Inr (xs ! i) else Inl IndexError)"

text \<open>\<open>if not cluster in core_cov: core_cov[cluster] = 0; index = 0\<close>\<close>

definition enter_cluster :: "string \<Rightarrow> sweep_state \<Rightarrow> sweep_state" where
  "enter_cluster c st =
     (if map_of (core_cov st) c = None
      then st\<lparr>core_cov := AList.update c 0 (core_cov st), index := 0\<rparr> else st)"

text \<open>
  The three statements inside the inner \<open>try\<close>. The first and the third read
  \<open>core_ends[cluster][index]\<close> and \<open>core_starts[cluster][index]\<close>, which raise
  \<open>KeyError\<close> or \<open>IndexError\<close> before they change anything.
\<close>

definition close_core :: "int list dict \<Rightarrow> bg_line \<Rightarrow> sweep_state \<Rightarrow> py_error + sweep_state" where
  "close_core ends l st =
     (case dict_get ends (bg_cluster l) of Inl e \<Rightarrow> Inl e
      | Inr es \<Rightarrow>
     (case list_get es (index st) of Inl e \<Rightarrow> Inl e
      | Inr ce \<Rightarrow>
        if of_int ce \<le> bg_end l \<and> of_int ce \<ge> bg_start l
        then Inr (st\<lparr>core_cov :=
                        (if bg_cov l \<noteq> 0
                         then AList.map_entry (bg_cluster l) (\<lambda>v. v + (of_int ce - bg_start l))
                                (core_cov st)
                         else core_cov st),
                      flag := False, index := index st + 1\<rparr>)
        else Inr st))"

definition inside_core :: "bg_line \<Rightarrow> sweep_state \<Rightarrow> sweep_state" where
  "inside_core l st =
     (if flag st \<and> bg_cov l \<noteq> 0
      then st\<lparr>core_cov :=
                AList.map_entry (bg_cluster l) (\<lambda>v. v + (bg_end l - bg_start l)) (core_cov st)\<rparr>
      else st)"

definition open_core :: "int list dict \<Rightarrow> bg_line \<Rightarrow> sweep_state \<Rightarrow> py_error + sweep_state" where
  "open_core starts l st =
     (case dict_get starts (bg_cluster l) of Inl e \<Rightarrow> Inl e
      | Inr ss \<Rightarrow>
     (case list_get ss (index st) of Inl e \<Rightarrow> Inl e
      | Inr cs \<Rightarrow>
        if of_int cs \<ge> bg_start l \<and> of_int cs \<le> bg_end l
        then Inr (st\<lparr>core_cov :=
                        (if bg_cov l \<noteq> 0
                         then AList.map_entry (bg_cluster l) (\<lambda>v. v + (bg_end l - of_int cs))
                                (core_cov st)
                         else core_cov st),
                      flag := True\<rparr>)
        else Inr st))"

text \<open>
  The handlers: \<open>except(IndexError): pass\<close> keeps the state reached when the exception
  was raised; \<open>except(KeyError): core_cov[cluster] = 0\<close>. No other exception is caught.
\<close>

definition sweep_handler :: "string \<Rightarrow> py_error \<Rightarrow> sweep_state \<Rightarrow> py_error + sweep_state" where
  "sweep_handler c e st =
     (case e of
        IndexError \<Rightarrow> Inr st
      | KeyError \<Rightarrow> Inr (st\<lparr>core_cov := AList.update c 0 (core_cov st)\<rparr>)
      | ZeroDivisionError \<Rightarrow> Inl ZeroDivisionError)"

definition sweep_line ::
  "int list dict \<Rightarrow> int list dict \<Rightarrow> sweep_state \<Rightarrow> bg_line \<Rightarrow> py_error + sweep_state" where
  "sweep_line starts ends st0 l =
     (let st = enter_cluster (bg_cluster l) st0
      in case close_core ends l st of Inl e \<Rightarrow> sweep_handler (bg_cluster l) e st
         | Inr st1 \<Rightarrow>
             let st2 = inside_core l st1
             in (case open_core starts l st2 of Inl e \<Rightarrow> sweep_handler (bg_cluster l) e st2
                 | Inr st3 \<Rightarrow> Inr st3))"

fun sweep ::
  "int list dict \<Rightarrow> int list dict \<Rightarrow> sweep_state \<Rightarrow> bg_line list \<Rightarrow> py_error + sweep_state" where
  "sweep starts ends st [] = Inr st"
| "sweep starts ends st (l # ls) =
     (case sweep_line starts ends st l of Inl e \<Rightarrow> Inl e
      | Inr st' \<Rightarrow> sweep starts ends st' ls)"

text \<open>
  The final loop. \<open>perc = core_cov[key]/core_lengths[key]\<close> raises \<open>KeyError\<close> for a
  cluster without core regions, which the handler turns into 0, and
  \<open>ZeroDivisionError\<close> for a cluster whose core length is 0, which no handler catches.
\<close>

definition core_perc :: "pyfloat dict \<Rightarrow> int dict \<Rightarrow> string \<Rightarrow> py_error + pyfloat" where
  "core_perc cov lens key =
     (case dict_get cov key of Inl e \<Rightarrow> Inl e
      | Inr bc \<Rightarrow>
     (case dict_get lens key of Inl e \<Rightarrow> Inl e
      | Inr cl \<Rightarrow>
        if cl = 0 then Inl ZeroDivisionError
        else let perc = bc / of_int cl in Inr (if perc > 1 then 1 else perc)))"

fun corecov_loop ::
  "string list \<Rightarrow> pyfloat dict \<Rightarrow> int dict \<Rightarrow> pyfloat dict \<Rightarrow> py_error + pyfloat dict" where
  "corecov_loop [] cov lens core_coverage = Inr core_coverage"
| "corecov_loop (key # keys) cov lens core_coverage =
     (case core_perc cov lens key of
        Inr perc \<Rightarrow> corecov_loop keys cov lens (AList.update key perc core_coverage)
      | Inl KeyError \<Rightarrow> corecov_loop keys cov lens (AList.update key 0 core_coverage)
      | Inl e \<Rightarrow> Inl e)"

definition computecorecoverage :: "bg_line list \<Rightarrow> bed_line list \<Rightarrow> py_error + pyfloat dict" where
  "computecorecoverage bedgraph bedfile =
     (let b = bed_scan bedfile
      in case sweep (core_starts b) (core_ends b) \<lparr>core_cov = [], flag = False, index = 0\<rparr>
                bedgraph of
           Inl e \<Rightarrow> Inl e
         | Inr st \<Rightarrow> corecov_loop (map fst (core_cov st)) (core_cov st) (core_lengths b) [])"

section \<open>Example inputs\<close>

definition bg_two_clusters :: "bg_line list" where
  "bg_two_clusters =
     [\<lparr>bg_cluster = ''c1'', bg_start = 0, bg_end = 500, bg_cov = 0\<rparr>,
      \<lparr>bg_cluster = ''c2'', bg_start = 0, bg_end = 300, bg_cov = 2\<rparr>,
      \<lparr>bg_cluster = ''c1'', bg_start = 500, bg_end = 1000, bg_cov = 5\<rparr>]"

definition bg_zero_length :: "bg_line list" where
  "bg_zero_length = [\<lparr>bg_cluster = ''c1'', bg_start = 0, bg_end = 0, bg_cov = 0\<rparr>]"

definition bg_two_clusters_deeper :: "bg_line list" where
  "bg_two_clusters_deeper =
     [\<lparr>bg_cluster = ''c1'', bg_start = 0, bg_end = 500, bg_cov = 0\<rparr>,
      \<lparr>bg_cluster = ''c2'', bg_start = 0, bg_end = 300, bg_cov = 7\<rparr>,
      \<lparr>bg_cluster = ''c1'', bg_start = 500, bg_end = 1000, bg_cov = 9\<rparr>]"

text \<open>
  The total core length of a sequence: the sum of \<open>end - start\<close> over its core regions.
\<close>

definition core_length :: "string \<Rightarrow> bed_line list \<Rightarrow> int" where
  "core_length s bed =
     sum_list (map (\<lambda>l. bed_end l - bed_start l) (filter (\<lambda>l. bed_clust l = s) bed))"

definition bed_scenario3 :: "bed_line list" where
  "bed_scenario3 = [\<lparr>bed_clust = ''c1'', bed_start = 100, bed_end = 200\<rparr>]"

definition bg_scenario3 :: "bg_line list" where
  "bg_scenario3 =
     [\<lparr>bg_cluster = ''c1'', bg_start = 0, bg_end = 150, bg_cov = 3\<rparr>,
      \<lparr>bg_cluster = ''c1'', bg_start = 150, bg_end = 1000, bg_cov = 0\<rparr>]"

definition bg_overrun :: "bg_line list" where
  "bg_overrun = [\<lparr>bg_cluster = ''c1'', bg_start = 0, bg_end = 250, bg_cov = 3\<rparr>]"

definition bed_empty_core :: "bed_line list" where
  "bed_empty_core = [\<lparr>bed_clust = ''c1'', bed_start = 5, bed_end = 5\<rparr>]"

definition bg_one_line :: "bg_line list" where
  "bg_one_line = [\<lparr>bg_cluster = ''c1'', bg_start = 0, bg_end = 10, bg_cov = 1\<rparr>]"

definition bed_two_clusters :: "bed_line list" where
  "bed_two_clusters =
     [\<lparr>bed_clust = ''c1'', bed_start = 10, bed_end = 20\<rparr>,
      \<lparr>bed_clust = ''c1'', bed_start = 30, bed_end = 40\<rparr>,
      \<lparr>bed_clust = ''c2'', bed_start = 50, bed_end = 60\<rparr>]"

definition bg_c1_line :: bg_line where
  "bg_c1_line = \<lparr>bg_cluster = ''c1'', bg_start = 0, bg_end = 100, bg_cov = 5\<rparr>"

definition bg_flag_leak :: "bg_line list" where
  "bg_flag_leak =
     [bg_c1_line,
      \<lparr>bg_cluster = ''c2'', bg_start = 0, bg_end = 40, bg_cov = 2\<rparr>,
      \<lparr>bg_cluster = ''c2'', bg_start = 40, bg_end = 100, bg_cov = 0\<rparr>]"

definition counts_scenario1 :: "count_line list" where
  "counts_scenario1 =
     [\<lparr>cl_cluster = ''c1'', cl_length = 1000, cl_nreads = 100, cl_nnoreads = ''0''\<rparr>,
      \<lparr>cl_cluster = ''c2'', cl_length = 500, cl_nreads = 150, cl_nnoreads = ''0''\<rparr>,
      \<lparr>cl_cluster = ''*'', cl_length = 0, cl_nreads = 0, cl_nnoreads = ''42''\<rparr>]"

definition counts_no_reads :: "count_line list" where
  "counts_no_reads =
     [\<lparr>cl_cluster = ''c1'', cl_length = 1000, cl_nreads = 0, cl_nnoreads = ''0''\<rparr>,
      \<lparr>cl_cluster = ''*'', cl_length = 0, cl_nreads = 0, cl_nnoreads = ''42''\<rparr>]"

text \<open>
  The value that the second loop of \<open>calculateRPKM\<close> stores for a cluster with \<open>n\<close>
  reads and length \<open>len\<close> when the read counts sum to \<open>s\<close>.
\<close>

definition rpkm_value :: "pyfloat \<Rightarrow> pyfloat \<Rightarrow> pyfloat \<Rightarrow> pyfloat" where
  "rpkm_value s n len = (if s * len = 0 then 0 else n / (s * len) * 1000000000)"

definition zero_length_line :: count_line where
  "zero_length_line = \<lparr>cl_cluster = ''c0'', cl_length = 0, cl_nreads = 7, cl_nnoreads = ''0''\<rparr>"

definition star_line :: count_line where
  "star_line = \<lparr>cl_cluster = ''*'', cl_length = 0, cl_nreads = 0, cl_nnoreads = ''42''\<rparr>"

definition counts_zero_length :: "count_line list" where
  "counts_zero_length =
     [\<lparr>cl_cluster = ''c1'', cl_length = 1000, cl_nreads = 100, cl_nnoreads = ''0''\<rparr>,
      zero_length_line, star_line]"

definition starred_line :: count_line where
  "starred_line = \<lparr>cl_cluster = ''c2'', cl_length = 500, cl_nreads = 150, cl_nnoreads = ''*''\<rparr>"

definition counts_starred :: "count_line list" where
  "counts_starred =
     [\<lparr>cl_cluster = ''c1'', cl_length = 1000, cl_nreads = 100, cl_nnoreads = ''0''\<rparr>,
      starred_line]"

definition counts_rounding :: "count_line list" where
  "counts_rounding =
     [\<lparr>cl_cluster = ''c1'', cl_length = 1000, cl_nreads = 100, cl_nnoreads = ''0''\<rparr>,
      \<lparr>cl_cluster = ''c2'', cl_length = 500, cl_nreads = 150, cl_nnoreads = ''0''\<rparr>]"

definition bg_huge :: "bg_line list" where
  "bg_huge =
     [\<lparr>bg_cluster = ''c1'', bg_start = 0, bg_end = 1, bg_cov = 0\<rparr>,
      \<lparr>bg_cluster = ''c1'', bg_start = 1, bg_end = 100000000000000000, bg_cov = 5\<rparr>]"

definition bg_one_third :: "bg_line list" where
  "bg_one_third =
     [\<lparr>bg_cluster = ''c1'', bg_start = 0, bg_end = 1, bg_cov = 0\<rparr>,
      \<lparr>bg_cluster = ''c1'', bg_start = 1, bg_end = 3, bg_cov = 5\<rparr>]"

section \<open>Rounding to binary64\<close>

lemma floor_rat_numeral: "\<lfloor>numeral a / numeral b :: rat\<rfloor> = numeral a div numeral b"
  by (metis floor_divide_of_int_eq of_int_numeral)

lemmas binary64_eval =
  binary64_def scale_up.simps scale_down.simps round_half_even_def Let_def floor_rat_numeral

subsection \<open>rounding to an integer\<close>

lemma round_half_even_of_int: "round_half_even (of_int n) = n"
  by (simp add: round_half_even_def)

lemma round_half_even_error: "\<bar>of_int (round_half_even y) - y\<bar> \<le> 1 / 2"
proof -
  have "of_int \<lfloor>y\<rfloor> \<le> y" "y < of_int \<lfloor>y\<rfloor> + 1" by linarith+
  then show ?thesis by (auto simp: round_half_even_def Let_def)
qed

lemma round_half_even_le: "y \<le> of_int n \<Longrightarrow> round_half_even y \<le> n"
proof -
  assume a: "y \<le> of_int n"
  then have f: "\<lfloor>y\<rfloor> \<le> n" by (simp add: floor_le_iff)
  show ?thesis
  proof (cases "\<lfloor>y\<rfloor> = n")
    case True
    with a have "y = of_int \<lfloor>y\<rfloor>" by (metis antisym of_int_floor_le)
    then have "round_half_even y = \<lfloor>y\<rfloor>"
      by (metis round_half_even_of_int floor_of_int)
    with True show ?thesis by simp
  next
    case False
    with f have "\<lfloor>y\<rfloor> + 1 \<le> n" by simp
    moreover have "round_half_even y \<le> \<lfloor>y\<rfloor> + 1"
      by (simp add: round_half_even_def Let_def)
    ultimately show ?thesis by simp
  qed
qed

subsection \<open>scaling\<close>

lemma scale_down_keeps: "m < 9007199254740992 \<Longrightarrow> scale_down m u = (m, u)"
  by (subst scale_down.simps) simp

lemma scale_down_props:
  assumes "0 < m" and "0 < u"
  shows "\<exists>m' u'. scale_down m u = (m', u') \<and>
           m' * u' = m * u \<and> 0 < u' \<and> 0 < m' \<and> m' < 9007199254740992"
  using assms
proof (induction m u rule: scale_down.induct)
  case (1 m u)
  show ?case
  proof (cases "9007199254740992 \<le> m")
    case True
    with "1.prems" have "\<exists>m' u'. scale_down (m / 2) (2 * u) = (m', u') \<and>
           m' * u' = m / 2 * (2 * u) \<and> 0 < u' \<and> 0 < m' \<and> m' < 9007199254740992"
      by (intro "1.IH") simp_all
    then obtain m' u' where r: "scale_down (m / 2) (2 * u) = (m', u')"
      and p: "m' * u' = m / 2 * (2 * u)" "0 < u'" "0 < m'" "m' < 9007199254740992" by blast
    have "scale_down m u = scale_down (m / 2) (2 * u)"
      using True by (subst scale_down.simps) simp
    with r have "scale_down m u = (m', u')" by simp
    moreover from p(1) have "m' * u' = m * u" by simp
    ultimately show ?thesis using p(2-4) by blast
  next
    case False
    then have "scale_down m u = (m, u)" by (subst scale_down.simps) simp
    with False "1.prems" show ?thesis by simp
  qed
qed

lemma scale_up_props:
  assumes "0 < m" and "0 < u"
  shows "\<exists>m' u' k. scale_up m u = (m', u') \<and> m' = m * 2 ^ k \<and> u' = u / 2 ^ k \<and>
           4503599627370496 \<le> m' \<and> (m < 9007199254740992 \<longrightarrow> m' < 9007199254740992)"
  using assms
proof (induction m u rule: scale_up.induct)
  case (1 m u)
  show ?case
  proof (cases "m < 4503599627370496")
    case True
    with "1.prems" have "\<exists>m' u' k. scale_up (2 * m) (u / 2) = (m', u') \<and>
           m' = 2 * m * 2 ^ k \<and> u' = u / 2 / 2 ^ k \<and> 4503599627370496 \<le> m' \<and>
           (2 * m < 9007199254740992 \<longrightarrow> m' < 9007199254740992)"
      by (intro "1.IH") simp_all
    then obtain m' u' and k :: nat where r: "scale_up (2 * m) (u / 2) = (m', u')"
      and k: "m' = 2 * m * 2 ^ k" "u' = u / 2 / 2 ^ k"
      and b: "4503599627370496 \<le> m'" "2 * m < 9007199254740992 \<longrightarrow> m' < 9007199254740992"
      by blast
    have "scale_up m u = scale_up (2 * m) (u / 2)"
      using True "1.prems" by (subst scale_up.simps) simp
    with r have e: "scale_up m u = (m', u')" by simp
    from k have k': "m' = m * 2 ^ Suc k" "u' = u / 2 ^ Suc k" by simp_all
    from True b(2) have "m' < 9007199254740992" by simp
    with e k' b(1) show ?thesis by blast
  next
    case False
    then have "scale_up m u = (m, u)" by (subst scale_up.simps) simp
    moreover have "m = m * 2 ^ 0" "u = u / 2 ^ 0" by simp_all
    ultimately show ?thesis using False by (metis not_less)
  qed
qed

text \<open>The parts of a positive number: significand in [2^52, 2^53), unit a power of two.\<close>

lemma binary64_pos_parts:
  assumes "0 < x"
  shows "\<exists>m u. binary64 x = of_int (round_half_even m) * u \<and> m * u = x \<and> 0 < u \<and>
           4503599627370496 \<le> m \<and> m < 9007199254740992 \<and>
           (x < 9007199254740992 \<longrightarrow> (\<exists>k::nat. m = x * 2 ^ k \<and> u = 1 / 2 ^ k))"
proof -
  from scale_down_props [of x 1] assms obtain m1 u1 where d: "scale_down x 1 = (m1, u1)"
    and d1: "m1 * u1 = x" "0 < u1" "0 < m1" "m1 < 9007199254740992" by auto
  from scale_up_props [OF d1(3,2)] d1(4) obtain m u and k :: nat where
    up: "scale_up m1 u1 = (m, u)" and k: "m = m1 * 2 ^ k" "u = u1 / 2 ^ k"
    and b: "4503599627370496 \<le> m" "m < 9007199254740992"
    by auto
  have b64: "binary64 x = of_int (round_half_even m) * u"
    using assms by (simp add: binary64_def d up)
  have mu: "m * u = x" using k d1(1) by simp
  have upos: "0 < u" using k d1(2) by simp
  have small: "\<exists>k::nat. m = x * 2 ^ k \<and> u = 1 / 2 ^ k" if "x < 9007199254740992"
  proof -
    from that have "scale_down x 1 = (x, 1)" by (rule scale_down_keeps)
    with d have "m1 = x" "u1 = 1" by simp_all
    with k show ?thesis by blast
  qed
  from b64 mu upos b small show ?thesis by blast
qed

lemma binary64_error:
  assumes "0 \<le> x"
  shows "\<bar>binary64 x - x\<bar> \<le> x / 9007199254740992"
proof (cases "x = 0")
  case True
  then show ?thesis by (simp add: binary64_def)
next
  case False
  with assms have "0 < x" by simp
  from binary64_pos_parts [OF this] obtain m u where
    p: "binary64 x = of_int (round_half_even m) * u" "m * u = x" "0 < u" "4503599627370496 \<le> m"
    by blast
  define r :: rat where "r = of_int (round_half_even m)"
  have "binary64 x - x = (r - m) * u"
    using p(1,2) by (simp add: r_def left_diff_distrib)
  then have "\<bar>binary64 x - x\<bar> = \<bar>r - m\<bar> * u"
    using p(3) by (simp add: abs_mult)
  also have "\<bar>r - m\<bar> * u \<le> 1 / 2 * u"
    using round_half_even_error [of m] p(3) unfolding r_def by (intro mult_right_mono) simp_all
  also have "1 / 2 * u \<le> m / 4503599627370496 * (1 / 2 * u)"
  proof -
    from p(4) have "1 \<le> m / 4503599627370496" by simp
    moreover from p(3) have "0 \<le> 1 / 2 * u" by simp
    ultimately show ?thesis using mult_right_mono [of 1 "m / 4503599627370496" "1 / 2 * u"] by simp
  qed
  also have "m / 4503599627370496 * (1 / 2 * u) = m * u / 9007199254740992" by simp
  finally show ?thesis unfolding p(2) .
qed

lemma binary64_nonneg: "0 \<le> x \<Longrightarrow> 0 \<le> binary64 x"
proof -
  assume a: "0 \<le> x"
  from binary64_error [OF a] have "x - binary64 x \<le> x / 9007199254740992"
    by (simp only: abs_le_iff) simp
  with a show ?thesis by linarith
qed

lemma binary64_pos: "0 < x \<Longrightarrow> 0 < binary64 x"
proof -
  assume a: "0 < x"
  then have "0 \<le> x" by simp
  from binary64_error [OF this] have "x - binary64 x \<le> x / 9007199254740992"
    by (simp only: abs_le_iff) simp
  with a show ?thesis by linarith
qed

lemma binary64_0: "binary64 0 = 0"
  by (simp add: binary64_def)


lemma binary64_of_int:
  assumes "0 \<le> n" and "n \<le> 9007199254740992"
  shows "binary64 (of_int n) = of_int n"
proof -
  consider "n = 0" | "n = 9007199254740992" | "0 < n" "n < 9007199254740992"
    using assms by linarith
  then show ?thesis
  proof cases
    case 1
    then show ?thesis by (simp add: binary64_def)
  next
    case 2
    have "binary64 9007199254740992 = 9007199254740992" by (simp add: binary64_eval)
    with 2 show ?thesis by simp
  next
    case 3
    let ?x = "of_int n :: rat"
    from 3 have pos: "0 < ?x" and lt: "?x < 9007199254740992" by simp_all
    from binary64_pos_parts [OF pos] lt obtain m u and k :: nat where
      p: "binary64 ?x = of_int (round_half_even m) * u" "m * u = ?x"
      and k: "m = ?x * 2 ^ k" by blast
    from k have mi: "m = of_int (n * 2 ^ k)" by simp
    then have "round_half_even m = n * 2 ^ k" by (simp only: round_half_even_of_int)
    with mi have "of_int (round_half_even m) = m" by simp
    with p show ?thesis by simp
  qed
qed

lemma binary64_quotient_less_1:
  assumes "0 \<le> a" and "a < b" and "b \<le> 9007199254740992"
  shows "binary64 (of_int a / of_int b) < 1"
proof (cases "a = 0")
  case True
  then show ?thesis by (simp add: binary64_def)
next
  case False
  define x :: rat where "x = of_int a / of_int b"
  from False assms have apos: "0 < a" and bpos: "0 < b" by simp_all
  then have pos: "0 < x" by (simp add: x_def)
  have "of_int a \<le> (of_int b - 1 :: rat)"
    using assms(2) by (metis of_int_1 of_int_diff of_int_le_iff zle_diff1_eq)
  then have "x \<le> (of_int b - 1) / of_int b"
    unfolding x_def using bpos by (simp add: divide_right_mono)
  also have "\<dots> = 1 - 1 / of_int b" using bpos by (simp add: field_simps)
  also have "\<dots> \<le> 1 - 1 / 9007199254740992"
  proof -
    have "(of_int b :: rat) \<le> 9007199254740992" using assms(3) by (metis of_int_le_iff of_int_numeral)
    moreover have "(0 :: rat) < of_int b" using bpos by simp
    ultimately have "1 / 9007199254740992 \<le> 1 / (of_int b :: rat)"
      by (simp add: frac_le)
    then show ?thesis by simp
  qed
  finally have xb: "x \<le> 1 - 1 / 9007199254740992" .
  then have x1: "x < 1" by linarith
  then have "x < 9007199254740992" by linarith
  with binary64_pos_parts [OF pos] obtain m u and k :: nat where
    p: "binary64 x = of_int (round_half_even m) * u" "0 < u"
      "4503599627370496 \<le> m" "m < 9007199254740992"
    and k: "m = x * 2 ^ k" "u = 1 / 2 ^ k" by blast
  define P :: rat where "P = 2 ^ k"
  have Ppos: "0 < P" by (simp add: P_def)
  from k have m: "m = x * P" and u: "u = 1 / P" by (simp_all add: P_def)
  have "x * P < 1 * P" using x1 Ppos by (rule mult_strict_right_mono)
  then have "m < P" unfolding m by simp
  with p(3) have "(2 :: rat) ^ 52 < 2 ^ k" unfolding P_def by simp
  then have k52: "52 < k" by (simp only: power_strict_increasing_iff)
  have "binary64 x < 1"
  proof (cases "k = 53")
    case True
    then have P53: "P = 9007199254740992" by (simp add: P_def)
    have "x * P \<le> (1 - 1 / 9007199254740992) * P"
      using xb Ppos by (intro mult_right_mono) simp_all
    then have "m \<le> of_int 9007199254740991" unfolding m P53 by simp
    then have "round_half_even m \<le> 9007199254740991" by (rule round_half_even_le)
    then have "(of_int (round_half_even m) :: rat) \<le> 9007199254740991"
      by (metis of_int_le_iff of_int_numeral)
    then show ?thesis unfolding p(1) u P53 by simp
  next
    case False
    with k52 have "54 \<le> k" by simp
    then have "(2 :: rat) ^ 54 \<le> 2 ^ k" by (intro power_increasing) simp_all
    then have P54: "18014398509481984 \<le> P" by (simp add: P_def)
    from p(4) have "m \<le> of_int 9007199254740992" by simp
    then have "round_half_even m \<le> 9007199254740992" by (rule round_half_even_le)
    then have "(of_int (round_half_even m) :: rat) \<le> 9007199254740992"
      by (metis of_int_le_iff of_int_numeral)
    with P54 have "of_int (round_half_even m) < P" by linarith
    then show ?thesis unfolding p(1) u using Ppos by simp
  qed
  then show ?thesis by (simp only: x_def)
qed

lemma binary64_quotient:
  assumes "0 \<le> a" and "a \<le> b" and "0 < b" and "b \<le> 9007199254740992"
  shows "0 \<le> binary64 (of_int a / of_int b) \<and> binary64 (of_int a / of_int b) \<le> 1 \<and>
         (binary64 (of_int a / of_int b) = 1 \<longleftrightarrow> a = b)"
proof (cases "a = b")
  case True
  have "binary64 1 = 1" using binary64_of_int [of 1] by simp
  with True assms show ?thesis by simp
next
  case False
  with assms have "a < b" by simp
  from binary64_quotient_less_1 [OF assms(1) this assms(4)]
  have "binary64 (of_int a / of_int b) < 1" .
  moreover have "0 \<le> binary64 (of_int a / of_int b)"
    using assms by (intro binary64_nonneg) simp
  ultimately show ?thesis using False by simp
qed

lemma binary64_Ints:
  assumes "x \<in> \<int>" and "0 \<le> x" and "x \<le> 9007199254740992"
  shows "binary64 x = x"
proof -
  from assms(1) obtain n where x: "x = of_int n" by (rule Ints_cases)
  with assms(2,3) have "0 \<le> n" "n \<le> 9007199254740992" by simp_all
  then show ?thesis unfolding x by (rule binary64_of_int)
qed

lemma binary64_Ints_quotient:
  assumes "x \<in> \<int>" and "y \<in> \<int>" and "0 \<le> x" and "x \<le> y" and "0 < y"
    and "y \<le> 9007199254740992"
  shows "0 \<le> binary64 (x / y) \<and> binary64 (x / y) \<le> 1 \<and> (binary64 (x / y) = 1 \<longleftrightarrow> x = y)"
proof -
  from assms(1) obtain a where x: "x = of_int a" by (rule Ints_cases)
  from assms(2) obtain b where y: "y = of_int b" by (rule Ints_cases)
  from assms(3-6) have "0 \<le> a" "a \<le> b" "0 < b" "b \<le> 9007199254740992"
    unfolding x y by simp_all
  from binary64_quotient [OF this] show ?thesis unfolding x y by simp
qed

section \<open>The whole-cluster aggregator computes what it is meant to\<close>

lemma totalcov_scan_snoc:
  "totalcov_scan rnd (bg @ [l]) = totalcov_line rnd (totalcov_scan rnd bg) l"
  by (simp add: totalcov_scan_def)

lemma on_cluster_snoc:
  "on_cluster s (bg @ [l]) = (if bg_cluster l = s then on_cluster s bg @ [l] else on_cluster s bg)"
  by (simp add: on_cluster_def)

lemma on_cluster_Nil_iff: "on_cluster s bg = [] \<longleftrightarrow> s \<notin> bg_cluster ` set bg"
  by (auto simp: on_cluster_def filter_empty_conv)

lemma clusterlen_scan:
  "map_of (clusterlen (totalcov_scan rnd bg)) s =
     (if s \<in> bg_cluster ` set bg then Some (seq_length s bg) else None)"
proof (induction bg arbitrary: s rule: rev_induct)
  case Nil
  show ?case by (simp add: totalcov_scan_def)
next
  case (snoc l bg)
  show ?case
    using snoc.IH [of s]
    by (auto simp: totalcov_scan_snoc totalcov_line_def Let_def AList.update_conv'
        seq_length_def on_cluster_snoc)
qed

lemma totalcov_line_keys:
  "fst ` set (nocov (totalcov_line rnd st l)) = insert (bg_cluster l) (fst ` set (nocov st))"
  by (simp add: totalcov_line_def Let_def AList.dom_map_entry AList.dom_update
      map_of_eq_None_iff insert_absorb)

lemma nocov_keys: "set (map fst (nocov (totalcov_scan rnd bg))) = bg_cluster ` set bg"
  by (induction bg rule: rev_induct)
    (simp_all add: totalcov_scan_snoc totalcov_line_keys totalcov_scan_def)

lemma totalcov_loop_Inr:
  assumes "\<forall>k\<in>set keys. \<exists>len nc. map_of (clusterlen st) k = Some len \<and> len \<noteq> 0
              \<and> map_of (nocov st) k = Some nc"
  shows "\<exists>m. totalcov_loop rnd keys st tc = Inr m \<and>
           (\<forall>k. map_of m k =
              (if k \<in> set keys
               then (case (map_of (clusterlen st) k, map_of (nocov st) k) of
                       (Some len, Some nc) \<Rightarrow> Some (rnd (rnd (len - nc) / len)) | _ \<Rightarrow> None)
               else map_of tc k))"
  using assms
proof (induction keys arbitrary: tc)
  case Nil
  show ?case by simp
next
  case (Cons key keys)
  from Cons.prems obtain len nc where k: "map_of (clusterlen st) key = Some len" "len \<noteq> 0"
    "map_of (nocov st) key = Some nc" by auto
  from Cons.prems have rest: "\<forall>k\<in>set keys. \<exists>len nc. map_of (clusterlen st) k = Some len
      \<and> len \<noteq> 0 \<and> map_of (nocov st) k = Some nc" by simp
  from Cons.IH [OF rest, of "AList.update key (rnd (rnd (len - nc) / len)) tc"]
  obtain m where m: "totalcov_loop rnd keys st (AList.update key (rnd (rnd (len - nc) / len)) tc) = Inr m"
    "\<forall>k. map_of m k = (if k \<in> set keys
               then (case (map_of (clusterlen st) k, map_of (nocov st) k) of
                       (Some len, Some nc) \<Rightarrow> Some (rnd (rnd (len - nc) / len)) | _ \<Rightarrow> None)
               else map_of (AList.update key (rnd (rnd (len - nc) / len)) tc) k)" by blast
  show ?case
    using k m by (auto simp: dict_get_def AList.update_conv')
qed

lemma totalcov_loop_zero:
  assumes "\<forall>k\<in>set keys. map_of (clusterlen st) k \<noteq> None \<and> map_of (nocov st) k \<noteq> None"
    and "\<exists>k\<in>set keys. map_of (clusterlen st) k = Some 0"
  shows "totalcov_loop rnd keys st tc = Inl ZeroDivisionError"
  using assms
proof (induction keys arbitrary: tc)
  case Nil
  then show ?case by simp
next
  case (Cons key keys)
  then show ?case
    by (cases "map_of (clusterlen st) key = Some 0") (auto simp: dict_get_def)
qed

subsection \<open>A sequence of length zero\<close>

text \<open>
  The division \<open>(clusterlen[key] - nocov[key])/clusterlen[key]\<close> is in no \<open>try\<close>: were a
  sequence of the stream to have length 0 (the end of its line seen last), the call would
  end with \<open>ZeroDivisionError\<close>, whatever the rounding. A depth interval has
  \<open>end > start \<ge> 0\<close>, so no stream of depth intervals has such a sequence.
\<close>

lemma zero_length_raises:
  assumes "s \<in> set (map bg_cluster bg)" and "seq_length s bg = 0"
  shows "computetotalcoverage rnd bg = Inl ZeroDivisionError"
proof -
  let ?st = "totalcov_scan rnd bg"
  let ?keys = "map fst (nocov ?st)"
  have keys: "set ?keys = bg_cluster ` set bg" by (rule nocov_keys)
  have a: "\<forall>k\<in>set ?keys. map_of (clusterlen ?st) k \<noteq> None \<and> map_of (nocov ?st) k \<noteq> None"
  proof
    fix k assume k: "k \<in> set ?keys"
    then have "map_of (clusterlen ?st) k \<noteq> None" unfolding keys by (simp add: clusterlen_scan)
    moreover from k have "map_of (nocov ?st) k \<noteq> None" by (simp add: map_of_eq_None_iff)
    ultimately show "map_of (clusterlen ?st) k \<noteq> None \<and> map_of (nocov ?st) k \<noteq> None" ..
  qed
  have b: "\<exists>k\<in>set ?keys. map_of (clusterlen ?st) k = Some 0"
    using assms unfolding keys by (auto simp: clusterlen_scan)
  show ?thesis
    using totalcov_loop_zero [OF a b] by (simp add: computetotalcoverage_def)
qed

lemma zero_length_raises_example:
  "''c1'' \<in> set (map bg_cluster bg_zero_length) \<and>
   seq_length ''c1'' bg_zero_length = 0 \<and>
   computetotalcoverage binary64 bg_zero_length = Inl ZeroDivisionError"
proof -
  have a: "''c1'' \<in> set (map bg_cluster bg_zero_length)" by (simp add: bg_zero_length_def)
  have b: "seq_length ''c1'' bg_zero_length = 0"
    by (simp add: seq_length_def on_cluster_def bg_zero_length_def)
  from a b zero_length_raises [OF a b, of binary64] show ?thesis by blast
qed

subsection \<open>Only the zero pattern of the depths matters\<close>

lemma totalcov_line_same:
  "same_but_depth l l' \<Longrightarrow> totalcov_line rnd st l = totalcov_line rnd st l'"
  by (auto simp: same_but_depth_def totalcov_line_def Let_def)

lemma totalcov_fold_same:
  "list_all2 same_but_depth bg bg' \<Longrightarrow>
     foldl (totalcov_line rnd) st bg = foldl (totalcov_line rnd) st bg'"
proof (induction bg bg' arbitrary: st rule: list_all2_induct)
  case Nil
  show ?case by simp
next
  case (Cons l bg l' bg')
  then show ?case by (simp add: totalcov_line_same [of l l'])
qed

text \<open>
  C10. Two bedgraph streams that agree line by line in cluster, start and end, and whose
  depths are either equal or both different from zero, give the same result of
  \<open>computetotalcoverage\<close>, be it a mapping or an exception, whatever the rounding.
\<close>

theorem C10_depth_values_irrelevant:
  assumes "list_all2 same_but_depth bg bg'"
  shows "computetotalcoverage rnd bg = computetotalcoverage rnd bg'"
  using totalcov_fold_same [OF assms, of rnd]
  by (simp add: computetotalcoverage_def totalcov_scan_def)

theorem C10_depth_values_irrelevant_witness:
  "list_all2 same_but_depth bg_two_clusters bg_two_clusters_deeper \<and>
   bg_two_clusters \<noteq> bg_two_clusters_deeper \<and>
   computetotalcoverage binary64 bg_two_clusters
     = computetotalcoverage binary64 bg_two_clusters_deeper"
proof -
  have h: "list_all2 same_but_depth bg_two_clusters bg_two_clusters_deeper"
    by (simp add: same_but_depth_def bg_two_clusters_def bg_two_clusters_deeper_def)
  have d: "bg_two_clusters \<noteq> bg_two_clusters_deeper"
    by (simp add: bg_two_clusters_def bg_two_clusters_deeper_def)
  from h d C10_depth_values_irrelevant [OF h, of binary64] show ?thesis by blast
qed

subsection \<open>Bounds of the coverage fraction\<close>

lemma run_sum_le:
  assumes "\<forall>l\<in>set (l0 # ls). bg_start l < bg_end l" and "contiguous (l0 # ls)"
  shows "sum_list (map (\<lambda>l. bg_end l - bg_start l) (filter P (l0 # ls)))
           \<le> bg_end (last (l0 # ls)) - bg_start l0"
  using assms
proof (induction ls arbitrary: l0)
  case Nil
  then show ?case by simp
next
  case (Cons l1 ls)
  from Cons.prems have "sum_list (map (\<lambda>l. bg_end l - bg_start l) (filter P (l1 # ls)))
           \<le> bg_end (last (l1 # ls)) - bg_start l1"
    by (intro Cons.IH) auto
  moreover from Cons.prems have "bg_end l0 = bg_start l1" "bg_start l0 < bg_end l0" by auto
  ultimately show ?case by auto
qed

lemma run_sum_pos:
  assumes "\<forall>l\<in>set ls. bg_start l < bg_end l"
  shows "sum_list (map (\<lambda>l. bg_end l - bg_start l) (filter P ls)) = 0
           \<longleftrightarrow> (\<forall>l\<in>set ls. \<not> P l)"
proof -
  have "sum_list (map (\<lambda>l. bg_end l - bg_start l) (filter P ls)) = 0
      \<longleftrightarrow> (\<forall>x\<in>set (map (\<lambda>l. bg_end l - bg_start l) (filter P ls)). x = 0)"
    using assms by (intro sum_list_nonneg_eq_0_iff) auto
  also have "\<dots> \<longleftrightarrow> (\<forall>l\<in>set ls. \<not> P l)"
    using assms by auto
  finally show ?thesis .
qed

lemma run_sum_nonneg:
  assumes "\<forall>l\<in>set ls. bg_start l < bg_end l"
  shows "0 \<le> sum_list (map (\<lambda>l. bg_end l - bg_start l) (filter P ls))"
  using assms by (intro sum_list_nonneg) auto

lemma wf_run_bounds:
  assumes wf: "wf_run (on_cluster s bg)" and s: "s \<in> bg_cluster ` set bg"
  shows "0 < seq_length s bg"
    and "0 \<le> uncovered s bg"
    and "uncovered s bg \<le> seq_length s bg"
    and "uncovered s bg = 0 \<longleftrightarrow> (\<forall>l\<in>set bg. bg_cluster l = s \<longrightarrow> 0 < bg_cov l)"
proof -
  from s obtain l0 ls where run: "on_cluster s bg = l0 # ls"
    using on_cluster_Nil_iff [of s bg] by (cases "on_cluster s bg") auto
  from wf have pos: "\<forall>l\<in>set (l0 # ls). bg_start l < bg_end l"
    and nn: "\<forall>l\<in>set (l0 # ls). 0 \<le> bg_start l"
    and cv: "\<forall>l\<in>set (l0 # ls). 0 \<le> bg_cov l"
    and ch: "contiguous (l0 # ls)"
    unfolding run wf_run_def by auto
  have lastin: "last (l0 # ls) \<in> set (l0 # ls)" by (rule last_in_set) simp
  from pos nn lastin have "0 \<le> bg_start (last (l0 # ls))"
    "bg_start (last (l0 # ls)) < bg_end (last (l0 # ls))" by blast+
  then show len: "0 < seq_length s bg" by (simp add: seq_length_def run)
  show "0 \<le> uncovered s bg"
    unfolding uncovered_def run using pos by (rule run_sum_nonneg)
  have "uncovered s bg \<le> bg_end (last (l0 # ls)) - bg_start l0"
    unfolding uncovered_def run using pos ch by (rule run_sum_le)
  moreover have "0 \<le> bg_start l0" using nn by simp
  ultimately show "uncovered s bg \<le> seq_length s bg" by (simp add: seq_length_def run)
  have "uncovered s bg = 0 \<longleftrightarrow> (\<forall>l\<in>set (on_cluster s bg). \<not> bg_cov l = 0)"
    unfolding uncovered_def run using pos by (rule run_sum_pos)
  also have "\<dots> \<longleftrightarrow> (\<forall>l\<in>set (on_cluster s bg). 0 < bg_cov l)"
    using cv unfolding run by (metis less_le)
  also have "\<dots> \<longleftrightarrow> (\<forall>l\<in>set bg. bg_cluster l = s \<longrightarrow> 0 < bg_cov l)"
    by (auto simp: on_cluster_def)
  finally show "uncovered s bg = 0 \<longleftrightarrow> (\<forall>l\<in>set bg. bg_cluster l = s \<longrightarrow> 0 < bg_cov l)" .
qed

lemma contiguous_butlast: "contiguous (ls @ [l]) \<Longrightarrow> contiguous ls"
  by (induction ls rule: contiguous.induct) auto

lemma wf_run_butlast: "wf_run (ls @ [l]) \<Longrightarrow> wf_run ls"
  by (auto simp: wf_run_def dest: contiguous_butlast)

lemma wf_stream_butlast: "wf_stream (bg @ [l]) \<Longrightarrow> wf_stream bg"
  unfolding wf_stream_def
proof
  fix s assume a: "\<forall>s\<in>set (map bg_cluster (bg @ [l])). wf_run (on_cluster s (bg @ [l]))"
    and s: "s \<in> set (map bg_cluster bg)"
  from s have "s \<in> set (map bg_cluster (bg @ [l]))" by simp
  with a have w: "wf_run (on_cluster s (bg @ [l]))" by (rule bspec)
  show "wf_run (on_cluster s bg)"
  proof (cases "bg_cluster l = s")
    case True
    with w show ?thesis by (simp add: on_cluster_snoc wf_run_butlast)
  next
    case False
    with w show ?thesis by (simp add: on_cluster_snoc)
  qed
qed

lemma exact_coords_butlast: "exact_coords (bg @ [l]) \<Longrightarrow> exact_coords bg"
  by (simp add: exact_coords_def)

lemma uncovered_snoc:
  "uncovered s (bg @ [l]) =
     (if bg_cluster l = s \<and> bg_cov l = 0 then uncovered s bg + (bg_end l - bg_start l)
      else uncovered s bg)"
  by (simp add: uncovered_def on_cluster_snoc)

lemma uncovered_new: "s \<notin> bg_cluster ` set bg \<Longrightarrow> uncovered s bg = 0"
  using on_cluster_Nil_iff [of s bg] by (simp add: uncovered_def)

lemma sum_list_Ints: "(\<And>x. x \<in> set xs \<Longrightarrow> f x \<in> \<int>) \<Longrightarrow> sum_list (map f xs) \<in> (\<int> :: rat set)"
  by (induction xs) simp_all

lemma uncovered_Ints: "exact_coords bg \<Longrightarrow> uncovered s bg \<in> \<int>"
  unfolding uncovered_def
  by (rule sum_list_Ints) (auto simp: exact_coords_def on_cluster_def)

lemma seq_length_Ints:
  assumes "exact_coords bg" and "s \<in> bg_cluster ` set bg"
  shows "seq_length s bg \<in> \<int>" and "seq_length s bg \<le> 9007199254740992"
proof -
  from assms(2) have "on_cluster s bg \<noteq> []" by (simp add: on_cluster_Nil_iff)
  then have "last (on_cluster s bg) \<in> set (on_cluster s bg)" by (rule last_in_set)
  then have "last (on_cluster s bg) \<in> set bg" by (simp add: on_cluster_def)
  with assms(1) show "seq_length s bg \<in> \<int>" and "seq_length s bg \<le> 9007199254740992"
    by (simp_all add: exact_coords_def seq_length_def)
qed

text \<open>
  On a well-formed stream with exact coordinates every sum that the first loop forms is
  an integer between 0 and the length of the sequence, so binary64 rounds nothing away.
\<close>

lemma nocov_scan_binary64:
  assumes "wf_stream bg" and "exact_coords bg"
  shows "map_of (nocov (totalcov_scan binary64 bg)) s =
     (if s \<in> bg_cluster ` set bg then Some (uncovered s bg) else None)"
  using assms
proof (induction bg arbitrary: s rule: rev_induct)
  case Nil
  show ?case by (simp add: totalcov_scan_def)
next
  case (snoc l bg)
  let ?c = "bg_cluster l"
  let ?bg' = "bg @ [l]"
  from snoc.prems have wf: "wf_stream bg" and ex: "exact_coords bg"
    by (auto dest: wf_stream_butlast exact_coords_butlast)
  note ih = snoc.IH [OF wf ex]
  have prev: "map_of (nocov (totalcov_scan binary64 bg)) ?c =
      (if ?c \<in> bg_cluster ` set bg then Some (uncovered ?c bg) else None)" by (rule ih)
  have cin: "?c \<in> bg_cluster ` set ?bg'" by simp
  from snoc.prems(1) have run: "wf_run (on_cluster ?c ?bg')" by (simp add: wf_stream_def)
  note b = wf_run_bounds [OF run cin]
  have step: "binary64 (uncovered ?c bg + binary64 (bg_end l - bg_start l)) = uncovered ?c ?bg'"
    if z: "bg_cov l = 0"
  proof -
    from snoc.prems(2) have li: "bg_start l \<in> \<int>" "bg_end l \<in> \<int>" "bg_end l \<le> 9007199254740992"
      by (simp_all add: exact_coords_def)
    from run have ls: "0 \<le> bg_start l" "bg_start l < bg_end l"
      by (simp_all add: wf_run_def on_cluster_snoc)
    have d: "binary64 (bg_end l - bg_start l) = bg_end l - bg_start l"
      using li ls by (intro binary64_Ints) (simp_all add: Ints_diff)
    have u: "uncovered ?c ?bg' = uncovered ?c bg + (bg_end l - bg_start l)"
      using z by (simp add: uncovered_snoc)
    have "uncovered ?c ?bg' \<le> 9007199254740992"
      using b(3) seq_length_Ints(2) [OF snoc.prems(2) cin] by linarith
    then have "binary64 (uncovered ?c ?bg') = uncovered ?c ?bg'"
      using uncovered_Ints [OF snoc.prems(2)] b(2) by (intro binary64_Ints)
    then show ?thesis unfolding d u .
  qed
  show ?case
  proof (cases "s = ?c")
    case False
    then show ?thesis
      using ih [of s]
      by (auto simp: totalcov_scan_snoc totalcov_line_def Let_def AList.map_of_map_entry
          AList.update_conv' uncovered_snoc)
  next
    case True
    show ?thesis
    proof (cases "bg_cov l = 0")
      case z: True
      show ?thesis
        unfolding True using prev step [OF z] z uncovered_new [of ?c bg]
        by (auto simp: totalcov_scan_snoc totalcov_line_def Let_def AList.map_of_map_entry
            AList.update_conv' binary64_0 uncovered_snoc)
    next
      case nz: False
      show ?thesis
        unfolding True using prev nz uncovered_new [of ?c bg]
        by (auto simp: totalcov_scan_snoc totalcov_line_def Let_def AList.map_of_map_entry
            AList.update_conv' uncovered_snoc)
    qed
  qed
qed

text \<open>
  C1, as the specification states it, fails for coordinates beyond \<open>2^53\<close>: in the
  well-formed stream \<open>[("c1",0,1,0),("c1",1,10^17,5)]\<close> one base is uncovered, but the
  float difference \<open>1e17 - 1.0\<close> rounds to \<open>1e17\<close>, and the coverage returned is
  exactly 1 although the first interval has depth 0.
\<close>

theorem C1_counterexample:
  "wf_stream bg_huge \<and>
   computetotalcoverage binary64 bg_huge = Inr [(''c1'', 1)] \<and>
   hd bg_huge \<in> set bg_huge \<and> bg_cluster (hd bg_huge) = ''c1'' \<and> bg_cov (hd bg_huge) = 0"
proof -
  have w: "wf_stream bg_huge"
    by (simp add: wf_stream_def wf_run_def on_cluster_def bg_huge_def)
  have st: "totalcov_scan binary64 bg_huge =
      \<lparr>nocov = [(''c1'', 1)], clusterlen = [(''c1'', 100000000000000000)]\<rparr>"
    by (simp add: totalcov_scan_def totalcov_line_def bg_huge_def binary64_eval)
  have c: "computetotalcoverage binary64 bg_huge = Inr [(''c1'', 1)]"
    unfolding computetotalcoverage_def st by (simp add: dict_get_def binary64_eval)
  from w c show ?thesis by (simp add: bg_huge_def)
qed

text \<open>
  C1, amended. For every depth-interval stream in which the intervals of each sequence are
  contiguous (hence not overlapping and in increasing start order) with
  \<open>0 \<le> start < end\<close> and a depth that is not negative, and whose coordinates are
  integers up to \<open>2^53\<close>, \<open>computetotalcoverage\<close> in binary64 arithmetic returns a
  mapping that gives every sequence of the stream a coverage fraction between 0 and 1, and
  the fraction is 1 exactly when every interval of the sequence has a depth above 0.
\<close>

theorem C1_coverage_fraction_bounds:
  assumes "wf_stream bg" and "exact_coords bg"
  shows "\<exists>m. computetotalcoverage binary64 bg = Inr m \<and>
           (\<forall>s\<in>set (map bg_cluster bg). \<exists>c. map_of m s = Some c \<and> 0 \<le> c \<and> c \<le> 1 \<and>
              (c = 1 \<longleftrightarrow> (\<forall>l\<in>set bg. bg_cluster l = s \<longrightarrow> 0 < bg_cov l)))"
proof -
  let ?st = "totalcov_scan binary64 bg"
  let ?keys = "map fst (nocov ?st)"
  have keys: "set ?keys = bg_cluster ` set bg" by (rule nocov_keys)
  have wf: "\<And>s. s \<in> bg_cluster ` set bg \<Longrightarrow> wf_run (on_cluster s bg)"
    using assms(1) by (auto simp: wf_stream_def)
  have pre: "\<forall>k\<in>set ?keys. \<exists>len nc. map_of (clusterlen ?st) k = Some len \<and> len \<noteq> 0
              \<and> map_of (nocov ?st) k = Some nc"
    unfolding keys
  proof
    fix k assume k: "k \<in> bg_cluster ` set bg"
    from wf_run_bounds(1) [OF wf [OF k] k] have "seq_length k bg \<noteq> 0" by simp
    with k show "\<exists>len nc. map_of (clusterlen ?st) k = Some len \<and> len \<noteq> 0
              \<and> map_of (nocov ?st) k = Some nc"
      by (simp add: clusterlen_scan nocov_scan_binary64 [OF assms])
  qed
  from totalcov_loop_Inr [OF pre, of binary64 "[]"] obtain m where
    m: "totalcov_loop binary64 ?keys ?st [] = Inr m"
    and v: "\<forall>k. map_of m k =
              (if k \<in> set ?keys
               then (case (map_of (clusterlen ?st) k, map_of (nocov ?st) k) of
                       (Some len, Some nc) \<Rightarrow> Some (binary64 (binary64 (len - nc) / len))
                     | _ \<Rightarrow> None)
               else map_of [] k)" by blast
  have res: "computetotalcoverage binary64 bg = Inr m"
    using m by (simp add: computetotalcoverage_def)
  have "\<exists>c. map_of m s = Some c \<and> 0 \<le> c \<and> c \<le> 1 \<and>
              (c = 1 \<longleftrightarrow> (\<forall>l\<in>set bg. bg_cluster l = s \<longrightarrow> 0 < bg_cov l))"
    if s: "s \<in> bg_cluster ` set bg" for s
  proof -
    let ?len = "seq_length s bg" and ?u = "uncovered s bg"
    note b = wf_run_bounds [OF wf [OF s] s]
    note li = seq_length_Ints [OF assms(2) s]
    note ui = uncovered_Ints [OF assms(2), of s]
    have d: "binary64 (?len - ?u) = ?len - ?u"
      using li ui b by (intro binary64_Ints) (simp_all add: Ints_diff)
    have ms: "map_of m s = Some (binary64 ((?len - ?u) / ?len))"
      using v s unfolding keys
      by (simp add: clusterlen_scan nocov_scan_binary64 [OF assms] d)
    have q: "0 \<le> binary64 ((?len - ?u) / ?len) \<and> binary64 ((?len - ?u) / ?len) \<le> 1 \<and>
        (binary64 ((?len - ?u) / ?len) = 1 \<longleftrightarrow> ?len - ?u = ?len)"
      using li ui b by (intro binary64_Ints_quotient) (simp_all add: Ints_diff)
    have "?len - ?u = ?len \<longleftrightarrow> ?u = 0" by auto
    with q b(4) ms show ?thesis by simp
  qed
  with res show ?thesis by auto
qed

theorem C1_coverage_fraction_bounds_witness:
  "wf_stream bg_two_clusters \<and> exact_coords bg_two_clusters \<and>
   (\<exists>m. computetotalcoverage binary64 bg_two_clusters = Inr m \<and>
      (\<forall>s\<in>set (map bg_cluster bg_two_clusters). \<exists>c. map_of m s = Some c \<and> 0 \<le> c \<and> c \<le> 1 \<and>
         (c = 1 \<longleftrightarrow> (\<forall>l\<in>set bg_two_clusters. bg_cluster l = s \<longrightarrow> 0 < bg_cov l))))"
proof -
  have wf: "wf_stream bg_two_clusters"
    by (simp add: wf_stream_def wf_run_def on_cluster_def bg_two_clusters_def)
  have ex: "exact_coords bg_two_clusters"
    by (simp add: exact_coords_def bg_two_clusters_def)
  from wf ex C1_coverage_fraction_bounds [OF wf ex] show ?thesis by blast
qed

subsection \<open>The coverage formula\<close>

text \<open>
  On a well-formed stream with exact coordinates the uncovered bases and the difference
  \<open>length - uncovered\<close> are computed without rounding; the one operation that rounds is
  the division.
\<close>

lemma computetotalcoverage_binary64:
  assumes "wf_stream bg" and "exact_coords bg"
  shows "\<exists>m. computetotalcoverage binary64 bg = Inr m \<and>
     (\<forall>s. map_of m s =
        (if s \<in> bg_cluster ` set bg
         then Some (binary64 ((seq_length s bg - uncovered s bg) / seq_length s bg))
         else None))"
proof -
  let ?st = "totalcov_scan binary64 bg"
  let ?keys = "map fst (nocov ?st)"
  have keys: "set ?keys = bg_cluster ` set bg" by (rule nocov_keys)
  have wf: "\<And>s. s \<in> bg_cluster ` set bg \<Longrightarrow> wf_run (on_cluster s bg)"
    using assms(1) by (auto simp: wf_stream_def)
  have pre: "\<forall>k\<in>set ?keys. \<exists>len nc. map_of (clusterlen ?st) k = Some len \<and> len \<noteq> 0
              \<and> map_of (nocov ?st) k = Some nc"
    unfolding keys
  proof
    fix k assume k: "k \<in> bg_cluster ` set bg"
    from wf_run_bounds(1) [OF wf [OF k] k] have "seq_length k bg \<noteq> 0" by simp
    with k show "\<exists>len nc. map_of (clusterlen ?st) k = Some len \<and> len \<noteq> 0
              \<and> map_of (nocov ?st) k = Some nc"
      by (simp add: clusterlen_scan nocov_scan_binary64 [OF assms])
  qed
  from totalcov_loop_Inr [OF pre, of binary64 "[]"] obtain m where
    m: "totalcov_loop binary64 ?keys ?st [] = Inr m"
    and v: "\<forall>k. map_of m k =
              (if k \<in> set ?keys
               then (case (map_of (clusterlen ?st) k, map_of (nocov ?st) k) of
                       (Some len, Some nc) \<Rightarrow> Some (binary64 (binary64 (len - nc) / len))
                     | _ \<Rightarrow> None)
               else map_of [] k)" by blast
  have res: "computetotalcoverage binary64 bg = Inr m"
    using m by (simp add: computetotalcoverage_def)
  have "map_of m s =
        (if s \<in> bg_cluster ` set bg
         then Some (binary64 ((seq_length s bg - uncovered s bg) / seq_length s bg))
         else None)" for s
  proof (cases "s \<in> bg_cluster ` set bg")
    case False
    with v show ?thesis unfolding keys by simp
  next
    case s: True
    let ?len = "seq_length s bg" and ?u = "uncovered s bg"
    note b = wf_run_bounds [OF wf [OF s] s]
    note li = seq_length_Ints [OF assms(2) s]
    note ui = uncovered_Ints [OF assms(2), of s]
    have d: "binary64 (?len - ?u) = ?len - ?u"
      using li ui b by (intro binary64_Ints) (simp_all add: Ints_diff)
    show ?thesis
      using v s unfolding keys
      by (simp add: clusterlen_scan nocov_scan_binary64 [OF assms] d)
  qed
  with res show ?thesis by blast
qed

text \<open>
  C3, as the specification states it, fails in binary64 arithmetic: for the stream
  \<open>[("c1",0,1,0),("c1",1,3,5)]\<close> the length is 3 and one base is uncovered, so the
  formula gives \<open>2/3\<close>, which is no double; the value returned is the double
  0.6666666666666666.
\<close>

theorem C3_counterexample:
  "wf_stream bg_one_third \<and> exact_coords bg_one_third \<and>
   computetotalcoverage binary64 bg_one_third
     = Inr [(''c1'', 6004799503160661 / 9007199254740992)] \<and>
   (seq_length ''c1'' bg_one_third - uncovered ''c1'' bg_one_third)
      / seq_length ''c1'' bg_one_third = 2 / 3 \<and>
   (6004799503160661 / 9007199254740992 :: pyfloat) \<noteq> 2 / 3"
proof -
  have w: "wf_stream bg_one_third"
    by (simp add: wf_stream_def wf_run_def on_cluster_def bg_one_third_def)
  have e: "exact_coords bg_one_third"
    by (simp add: exact_coords_def bg_one_third_def)
  have st: "totalcov_scan binary64 bg_one_third =
      \<lparr>nocov = [(''c1'', 1)], clusterlen = [(''c1'', 3)]\<rparr>"
    by (simp add: totalcov_scan_def totalcov_line_def bg_one_third_def binary64_eval)
  have c: "computetotalcoverage binary64 bg_one_third
     = Inr [(''c1'', 6004799503160661 / 9007199254740992)]"
    unfolding computetotalcoverage_def st by (simp add: dict_get_def binary64_eval)
  have q: "(seq_length ''c1'' bg_one_third - uncovered ''c1'' bg_one_third)
      / seq_length ''c1'' bg_one_third = 2 / 3"
    by (simp add: seq_length_def uncovered_def on_cluster_def bg_one_third_def)
  from w e c q show ?thesis by simp
qed

text \<open>
  C3, amended. For every depth-interval stream in which the intervals of each sequence are
  contiguous with \<open>0 \<le> start < end\<close> and a depth that is not negative, and whose
  coordinates are integers up to \<open>2^53\<close>, \<open>computetotalcoverage\<close> in binary64
  arithmetic returns a mapping; every sequence of the stream has a length above 0 (the end
  of its line seen last), and its coverage fraction is the double nearest to
  \<open>(length - uncovered) / length\<close>, where \<open>uncovered\<close> sums \<open>end - start\<close> over the
  sequence's intervals of depth zero. That double is within a relative error of
  \<open>2^-53\<close> of the exact quotient.
\<close>

theorem C3_coverage_formula:
  assumes "wf_stream bg" and "exact_coords bg"
  shows "\<exists>m. computetotalcoverage binary64 bg = Inr m \<and>
     (\<forall>s\<in>set (map bg_cluster bg). \<exists>c.
        0 < seq_length s bg \<and> map_of m s = Some c \<and>
        c = binary64 ((seq_length s bg - uncovered s bg) / seq_length s bg) \<and>
        \<bar>c - (seq_length s bg - uncovered s bg) / seq_length s bg\<bar>
          \<le> (seq_length s bg - uncovered s bg) / seq_length s bg / 9007199254740992)"
proof -
  from computetotalcoverage_binary64 [OF assms] obtain m where
    res: "computetotalcoverage binary64 bg = Inr m"
    and v: "\<forall>s. map_of m s =
        (if s \<in> bg_cluster ` set bg
         then Some (binary64 ((seq_length s bg - uncovered s bg) / seq_length s bg))
         else None)" by blast
  have "\<exists>c. 0 < seq_length s bg \<and> map_of m s = Some c \<and>
        c = binary64 ((seq_length s bg - uncovered s bg) / seq_length s bg) \<and>
        \<bar>c - (seq_length s bg - uncovered s bg) / seq_length s bg\<bar>
          \<le> (seq_length s bg - uncovered s bg) / seq_length s bg / 9007199254740992"
    if s: "s \<in> bg_cluster ` set bg" for s
  proof -
    from assms(1) s have "wf_run (on_cluster s bg)" by (auto simp: wf_stream_def)
    note b = wf_run_bounds [OF this s]
    define q where "q = (seq_length s bg - uncovered s bg) / seq_length s bg"
    from b have q0: "0 \<le> q" by (simp add: q_def)
    from v s have ms: "map_of m s = Some (binary64 q)" by (simp add: q_def)
    from binary64_error [OF q0] have "\<bar>binary64 q - q\<bar> \<le> q / 9007199254740992" .
    with ms b(1) show ?thesis unfolding q_def by simp
  qed
  with res show ?thesis by auto
qed

theorem C3_coverage_formula_witness:
  "wf_stream bg_two_clusters \<and> exact_coords bg_two_clusters \<and>
   (\<exists>m. computetotalcoverage binary64 bg_two_clusters = Inr m \<and>
     (\<forall>s\<in>set (map bg_cluster bg_two_clusters). \<exists>c.
        0 < seq_length s bg_two_clusters \<and> map_of m s = Some c \<and>
        c = binary64 ((seq_length s bg_two_clusters - uncovered s bg_two_clusters)
                        / seq_length s bg_two_clusters) \<and>
        \<bar>c - (seq_length s bg_two_clusters - uncovered s bg_two_clusters)
               / seq_length s bg_two_clusters\<bar>
          \<le> (seq_length s bg_two_clusters - uncovered s bg_two_clusters)
               / seq_length s bg_two_clusters / 9007199254740992))"
proof -
  have wf: "wf_stream bg_two_clusters"
    by (simp add: wf_stream_def wf_run_def on_cluster_def bg_two_clusters_def)
  have ex: "exact_coords bg_two_clusters"
    by (simp add: exact_coords_def bg_two_clusters_def)
  from wf ex C3_coverage_formula [OF wf ex] show ?thesis by blast
qed

section \<open>The core-region aggregator\<close>

lemmas core_eval = computecorecoverage_def bed_scan_def bed_step_def sweep_line_def
  enter_cluster_def close_core_def inside_core_def open_core_def sweep_handler_def
  dict_get_def list_get_def core_perc_def Let_def


text \<open>
  C4. For the core-region table \<open>[("c1",100,200)]\<close> and the depth intervals
  \<open>[("c1",0,150,3),("c1",150,1000,0)]\<close> the sweep ends with 50 covered core bases for
  \<open>c1\<close>, and \<open>computecorecoverage\<close> returns the core coverage 0.5 for it.
\<close>

theorem C4_scenario3:
  "sweep (core_starts (bed_scan bed_scenario3)) (core_ends (bed_scan bed_scenario3))
     \<lparr>core_cov = [], flag = False, index = 0\<rparr> bg_scenario3
     = Inr \<lparr>core_cov = [(''c1'', 50)], flag = False, index = 1\<rparr> \<and>
   computecorecoverage bg_scenario3 bed_scenario3 = Inr [(''c1'', 1 / 2)]"
  by (simp add: core_eval bed_scenario3_def bg_scenario3_def)


subsection \<open>The clamp\<close>

lemma in_set_updateD:
  "(k', v') \<in> set (AList.update k v al) \<Longrightarrow> (k', v') = (k, v) \<or> (k', v') \<in> set al"
  by (induction al) (auto split: if_splits)

lemma core_perc_le_1: "core_perc cov lens key = Inr p \<Longrightarrow> p \<le> 1"
  by (auto simp: core_perc_def Let_def split: sum.splits if_splits)

lemma corecov_loop_le_1:
  assumes "corecov_loop keys cov lens out = Inr m" and "\<forall>v\<in>snd ` set out. v \<le> 1"
  shows "\<forall>v\<in>snd ` set m. v \<le> 1"
  using assms
proof (induction keys arbitrary: out)
  case Nil
  then show ?case by simp
next
  case (Cons key keys)
  show ?case
  proof (cases "core_perc cov lens key")
    case (Inr perc)
    have "\<forall>v\<in>snd ` set (AList.update key perc out). v \<le> 1"
      using Cons.prems(2) core_perc_le_1 [OF Inr] by (auto dest!: in_set_updateD)
    moreover have "corecov_loop keys cov lens (AList.update key perc out) = Inr m"
      using Cons.prems(1) Inr by simp
    ultimately show ?thesis by (rule Cons.IH [rotated])
  next
    case (Inl e)
    have "\<forall>v\<in>snd ` set (AList.update key 0 out). v \<le> 1"
      using Cons.prems(2) by (auto dest!: in_set_updateD)
    moreover have "corecov_loop keys cov lens (AList.update key 0 out) = Inr m"
      using Cons.prems(1) Inl by (cases e) simp_all
    ultimately show ?thesis by (rule Cons.IH [rotated])
  qed
qed


text \<open>
  C5. Whatever the bedgraph and the core-region table, every value of a mapping returned by
  \<open>computecorecoverage\<close> is at most 1. The witness is a depth interval that overruns the
  end of the core region: 200 bases are counted for a core of length 100, and the value
  returned is 1.
\<close>

theorem C5_core_coverage_at_most_1:
  assumes "computecorecoverage bedgraph bedfile = Inr m"
  shows "\<forall>v\<in>snd ` set m. v \<le> 1"
proof (cases "sweep (core_starts (bed_scan bedfile)) (core_ends (bed_scan bedfile))
                \<lparr>core_cov = [], flag = False, index = 0\<rparr> bedgraph")
  case (Inl e)
  with assms show ?thesis by (simp add: computecorecoverage_def Let_def)
next
  case (Inr st)
  with assms have
    "corecov_loop (map fst (core_cov st)) (core_cov st) (core_lengths (bed_scan bedfile)) [] = Inr m"
    by (simp add: computecorecoverage_def Let_def)
  then show ?thesis by (rule corecov_loop_le_1) simp
qed

theorem C5_core_coverage_at_most_1_witness:
  "sweep (core_starts (bed_scan bed_scenario3)) (core_ends (bed_scan bed_scenario3))
     \<lparr>core_cov = [], flag = False, index = 0\<rparr> bg_overrun
     = Inr \<lparr>core_cov = [(''c1'', 200)], flag = False, index = 1\<rparr> \<and>
   map_of (core_lengths (bed_scan bed_scenario3)) ''c1'' = Some 100 \<and>
   computecorecoverage bg_overrun bed_scenario3 = Inr [(''c1'', 1)] \<and>
   (\<exists>m. computecorecoverage bg_overrun bed_scenario3 = Inr m \<and> (\<forall>v\<in>snd ` set m. v \<le> 1))"
proof -
  have e: "computecorecoverage bg_overrun bed_scenario3 = Inr [(''c1'', 1)]"
    by (simp add: core_eval bed_scenario3_def bg_overrun_def)
  have s: "sweep (core_starts (bed_scan bed_scenario3)) (core_ends (bed_scan bed_scenario3))
     \<lparr>core_cov = [], flag = False, index = 0\<rparr> bg_overrun
     = Inr \<lparr>core_cov = [(''c1'', 200)], flag = False, index = 1\<rparr>"
    by (simp add: core_eval bed_scenario3_def bg_overrun_def)
  have l: "map_of (core_lengths (bed_scan bed_scenario3)) ''c1'' = Some 100"
    by (simp add: core_eval bed_scenario3_def)
  from s l e C5_core_coverage_at_most_1 [OF e] show ?thesis by blast
qed


subsection \<open>A core of length zero\<close>

lemma close_core_error: "close_core ends l st = Inl e \<Longrightarrow> e \<noteq> ZeroDivisionError"
  by (auto simp: close_core_def dict_get_def list_get_def split: option.splits sum.splits if_splits)

lemma open_core_error: "open_core starts l st = Inl e \<Longrightarrow> e \<noteq> ZeroDivisionError"
  by (auto simp: open_core_def dict_get_def list_get_def split: option.splits sum.splits if_splits)

lemma sweep_handler_Inr:
  "e \<noteq> ZeroDivisionError \<Longrightarrow> \<exists>st'. sweep_handler c e st = Inr st' \<and>
     fst ` set (core_cov st') = (if e = KeyError then insert c (fst ` set (core_cov st)) else fst ` set (core_cov st))"
  by (cases e) (auto simp: sweep_handler_def AList.dom_update)

lemma enter_cluster_keys:
  "fst ` set (core_cov (enter_cluster c st)) = insert c (fst ` set (core_cov st))"
  by (auto simp: enter_cluster_def AList.dom_update map_of_eq_None_iff)

lemma close_core_cov:
  "close_core ends l st = Inr st' \<Longrightarrow>
     core_cov st' = core_cov st \<or> (\<exists>f. core_cov st' = AList.map_entry (bg_cluster l) f (core_cov st))"
  by (auto simp: close_core_def split: sum.splits if_splits)

lemma close_core_keys:
  "close_core ends l st = Inr st' \<Longrightarrow> fst ` set (core_cov st') = fst ` set (core_cov st)"
  by (drule close_core_cov, elim disjE exE) (simp_all add: AList.dom_map_entry)

lemma open_core_cov:
  "open_core starts l st = Inr st' \<Longrightarrow>
     core_cov st' = core_cov st \<or> (\<exists>f. core_cov st' = AList.map_entry (bg_cluster l) f (core_cov st))"
  by (auto simp: open_core_def split: sum.splits if_splits)

lemma open_core_keys:
  "open_core starts l st = Inr st' \<Longrightarrow> fst ` set (core_cov st') = fst ` set (core_cov st)"
  by (drule open_core_cov, elim disjE exE) (simp_all add: AList.dom_map_entry)

lemma inside_core_keys:
  "fst ` set (core_cov (inside_core l st)) = fst ` set (core_cov st)"
  by (simp add: inside_core_def AList.dom_map_entry)

lemma sweep_line_Inr:
  "\<exists>st'. sweep_line starts ends st l = Inr st' \<and>
     fst ` set (core_cov st') = insert (bg_cluster l) (fst ` set (core_cov st))"
proof (cases "close_core ends l (enter_cluster (bg_cluster l) st)")
  case (Inl e)
  from sweep_handler_Inr [OF close_core_error [OF Inl], of "bg_cluster l" "enter_cluster (bg_cluster l) st"]
  show ?thesis using Inl by (auto simp: sweep_line_def enter_cluster_keys split: if_splits)
next
  case (Inr st1)
  note k1 = close_core_keys [OF Inr]
  show ?thesis
  proof (cases "open_core starts l (inside_core l st1)")
    case (Inl e)
    from sweep_handler_Inr [OF open_core_error [OF Inl], of "bg_cluster l" "inside_core l st1"]
    show ?thesis using Inl Inr k1
      by (auto simp: sweep_line_def enter_cluster_keys inside_core_keys split: if_splits)
  next
    case st3: (Inr st3)
    from open_core_keys [OF st3] show ?thesis using Inr st3 k1
      by (simp add: sweep_line_def enter_cluster_keys inside_core_keys)
  qed
qed

lemma sweep_Inr:
  "\<exists>st'. sweep starts ends st bg = Inr st' \<and>
     fst ` set (core_cov st') = bg_cluster ` set bg \<union> fst ` set (core_cov st)"
proof (induction bg arbitrary: st)
  case Nil
  show ?case by simp
next
  case (Cons l bg)
  from sweep_line_Inr [of starts ends st l] obtain st1 where
    st1: "sweep_line starts ends st l = Inr st1"
      "fst ` set (core_cov st1) = insert (bg_cluster l) (fst ` set (core_cov st))" by blast
  from Cons.IH [of st1] obtain st' where
    "sweep starts ends st1 bg = Inr st'"
    "fst ` set (core_cov st') = bg_cluster ` set bg \<union> fst ` set (core_cov st1)" by blast
  with st1 show ?case by auto
qed

lemma core_perc_zero:
  "key \<in> fst ` set cov \<Longrightarrow> map_of lens key = Some 0 \<Longrightarrow> core_perc cov lens key = Inl ZeroDivisionError"
  by (auto simp: core_perc_def dict_get_def map_of_eq_None_iff split: option.splits)

lemma core_perc_error: "core_perc cov lens key = Inl e \<Longrightarrow> e = KeyError \<or> e = ZeroDivisionError"
  by (auto simp: core_perc_def dict_get_def Let_def split: option.splits sum.splits if_splits)

lemma corecov_loop_zero:
  assumes "s \<in> set keys" and "s \<in> fst ` set cov" and "map_of lens s = Some 0"
  shows "corecov_loop keys cov lens out = Inl ZeroDivisionError"
  using assms(1)
proof (induction keys arbitrary: out)
  case Nil
  then show ?case by simp
next
  case (Cons key keys)
  show ?case
  proof (cases "key = s")
    case True
    then show ?thesis using core_perc_zero [OF assms(2,3)] by simp
  next
    case False
    with Cons.prems have "s \<in> set keys" by simp
    note ih = Cons.IH [OF this]
    show ?thesis
    proof (cases "core_perc cov lens key")
      case (Inl e)
      with core_perc_error [OF Inl] show ?thesis by (auto simp: ih)
    next
      case (Inr p)
      then show ?thesis by (simp add: ih)
    qed
  qed
qed

lemma bed_scan_snoc: "bed_scan (bed @ [l]) = bed_step (bed_scan bed) l"
  by (simp add: bed_scan_def)

lemma core_lengths_scan:
  "map_of (core_lengths (bed_scan bed)) s =
     (if s \<in> bed_clust ` set bed then Some (core_length s bed) else None)"
proof (induction bed arbitrary: s rule: rev_induct)
  case Nil
  show ?case by (simp add: bed_scan_def)
next
  case (snoc l bed)
  have new: "bed_clust l \<notin> bed_clust ` set bed \<Longrightarrow> core_length (bed_clust l) bed = 0"
  proof -
    assume "bed_clust l \<notin> bed_clust ` set bed"
    then have "filter (\<lambda>la. bed_clust la = bed_clust l) bed = []"
      unfolding filter_empty_conv by (metis imageI)
    then show ?thesis by (simp add: core_length_def)
  qed
  show ?case
    using snoc.IH [of s] snoc.IH [of "bed_clust l"] new
    by (auto simp: bed_scan_snoc bed_step_def Let_def AList.map_of_map_entry
        AList.update_conv' core_length_def)
qed


text \<open>
  C6. The specification has \<open>computecorecoverage\<close> resolve the core coverage of a sequence
  whose core length is 0 to 0 without raising. The code does the opposite: whenever a
  sequence of the bedgraph has core regions of total length 0, the division in the final
  loop raises \<open>ZeroDivisionError\<close>, which the handler for \<open>KeyError\<close> does not catch,
  and no mapping is returned.
\<close>

theorem C6_zero_core_length_raises:
  assumes "s \<in> set (map bg_cluster bedgraph)"
    and "s \<in> set (map bed_clust bedfile)"
    and "core_length s bedfile = 0"
  shows "computecorecoverage bedgraph bedfile = Inl ZeroDivisionError"
proof -
  let ?b = "bed_scan bedfile"
  have len: "map_of (core_lengths ?b) s = Some 0"
    using assms(2,3) by (simp add: core_lengths_scan)
  from sweep_Inr [of "core_starts ?b" "core_ends ?b" "\<lparr>core_cov = [], flag = False, index = 0\<rparr>" bedgraph]
  obtain st where st: "sweep (core_starts ?b) (core_ends ?b) \<lparr>core_cov = [], flag = False, index = 0\<rparr> bedgraph = Inr st"
    and keys: "fst ` set (core_cov st) = bg_cluster ` set bedgraph" by auto
  have "s \<in> set (map fst (core_cov st))" "s \<in> fst ` set (core_cov st)"
    using assms(1) keys by auto
  from corecov_loop_zero [OF this len] st show ?thesis
    by (simp add: computecorecoverage_def Let_def)
qed

theorem C6_zero_core_length_raises_witness:
  "''c1'' \<in> set (map bg_cluster bg_one_line) \<and>
   ''c1'' \<in> set (map bed_clust bed_empty_core) \<and>
   core_length ''c1'' bed_empty_core = 0 \<and>
   computecorecoverage bg_one_line bed_empty_core = Inl ZeroDivisionError"
proof -
  have a: "''c1'' \<in> set (map bg_cluster bg_one_line)" by (simp add: bg_one_line_def)
  have b: "''c1'' \<in> set (map bed_clust bed_empty_core)" by (simp add: bed_empty_core_def)
  have c: "core_length ''c1'' bed_empty_core = 0"
    by (simp add: core_length_def bed_empty_core_def)
  from a b c C6_zero_core_length_raises [OF a b c] show ?thesis by blast
qed


subsection \<open>The flag is shared by all clusters\<close>

text \<open>
  C7. The specification has both cursor components reset when a sequence is met for the
  first time. The code resets \<open>index\<close> only. With two core regions of \<open>c1\<close> under one
  depth interval the sweep leaves \<open>c1\<close> with the flag set; entering \<open>c2\<close> sets the index
  to 0 and keeps the flag, so the first interval of \<open>c2\<close>, which lies before the core
  region of \<open>c2\<close>, is counted in full: 40 covered bases and a core coverage of 1 for a
  core region (50 to 60) that lies entirely in an interval of depth 0.
\<close>

theorem C7_flag_survives_new_cluster:
  "sweep (core_starts (bed_scan bed_two_clusters)) (core_ends (bed_scan bed_two_clusters))
     \<lparr>core_cov = [], flag = False, index = 0\<rparr> [bg_c1_line]
     = Inr \<lparr>core_cov = [(''c1'', 90)], flag = True, index = 1\<rparr> \<and>
   enter_cluster ''c2'' \<lparr>core_cov = [(''c1'', 90)], flag = True, index = 1\<rparr>
     = \<lparr>core_cov = [(''c1'', 90), (''c2'', 0)], flag = True, index = 0\<rparr> \<and>
   sweep (core_starts (bed_scan bed_two_clusters)) (core_ends (bed_scan bed_two_clusters))
     \<lparr>core_cov = [], flag = False, index = 0\<rparr> bg_flag_leak
     = Inr \<lparr>core_cov = [(''c1'', 90), (''c2'', 40)], flag = False, index = 1\<rparr> \<and>
   computecorecoverage bg_flag_leak bed_two_clusters = Inr [(''c1'', 1), (''c2'', 1)]"
  by (simp add: core_eval bed_two_clusters_def bg_flag_leak_def bg_c1_line_def)

section \<open>The abundance normaliser\<close>

subsection \<open>\<open>calculateTPM\<close> on a table with one record per sequence\<close>

lemma update_new: "k \<notin> fst ` set al \<Longrightarrow> AList.update k v al = al @ [(k, v)]"
  by (induction al) auto

lemma tpm_scan_snoc: "tpm_scan rnd (tbl @ [l]) = tpm_line rnd (tpm_scan rnd tbl) l"
  by (simp add: tpm_scan_def)

lemma ratesum_scan:
  "ratesum (tpm_scan exact tbl) =
     sum_list (map (\<lambda>l. cl_nreads l / cl_length l) (filter (\<lambda>l. cl_length l \<noteq> 0) tbl))"
  by (induction tbl rule: rev_induct)
    (simp_all add: tpm_scan_snoc tpm_line_def Let_def tpm_scan_def exact_def)

lemma rates_scan:
  "distinct (map cl_cluster tbl) \<Longrightarrow>
   rates (tpm_scan rnd tbl) =
     map (\<lambda>l. (cl_cluster l, rnd (cl_nreads l / cl_length l)))
       (filter (\<lambda>l. cl_length l \<noteq> 0) tbl)"
proof (induction tbl rule: rev_induct)
  case Nil
  show ?case by (simp add: tpm_scan_def)
next
  case (snoc l tbl)
  then have ih: "rates (tpm_scan rnd tbl) =
     map (\<lambda>l. (cl_cluster l, rnd (cl_nreads l / cl_length l)))
       (filter (\<lambda>l. cl_length l \<noteq> 0) tbl)"
    and new: "cl_cluster l \<notin> cl_cluster ` set tbl" by auto
  from new have "cl_cluster l \<notin> fst ` set (rates (tpm_scan rnd tbl))"
    unfolding ih by force
  then show ?case
    by (simp add: tpm_scan_snoc tpm_line_def Let_def update_new ih)
qed

lemma tpm_loop_pairs:
  assumes "distinct (map fst al)" and "fst ` set al \<inter> fst ` set out = {}"
    and "\<forall>p\<in>set al. map_of (rates st) (fst p) = Some (snd p)"
  shows "tpm_loop rnd (map fst al) st out =
     Inr (out @ map (\<lambda>p. (fst p, if ratesum st = 0 then 0 else rnd (snd p / ratesum st))) al)"
  using assms
proof (induction al arbitrary: out)
  case Nil
  show ?case by simp
next
  case (Cons p al)
  let ?v = "if ratesum st = 0 then 0 else rnd (snd p / ratesum st)"
  from Cons.prems have r: "map_of (rates st) (fst p) = Some (snd p)" by simp
  from Cons.prems have new: "fst p \<notin> fst ` set out" by auto
  have "tpm_loop rnd (map fst al) st (out @ [(fst p, ?v)]) =
     Inr ((out @ [(fst p, ?v)]) @
          map (\<lambda>p. (fst p, if ratesum st = 0 then 0 else rnd (snd p / ratesum st))) al)"
    using Cons.prems by (intro Cons.IH) auto
  then show ?case using r new by (simp add: dict_get_def update_new)
qed

lemma calculateTPM_distinct:
  assumes "distinct (map cl_cluster tbl)"
  shows "calculateTPM rnd tbl =
     Inr (map (\<lambda>l. (cl_cluster l,
                      if ratesum (tpm_scan rnd tbl) = 0 then 0
                      else rnd (rnd (cl_nreads l / cl_length l) / ratesum (tpm_scan rnd tbl))))
            (filter (\<lambda>l. cl_length l \<noteq> 0) tbl))"
proof -
  let ?st = "tpm_scan rnd tbl"
  let ?R = "map (\<lambda>l. (cl_cluster l, rnd (cl_nreads l / cl_length l)))
              (filter (\<lambda>l. cl_length l \<noteq> 0) tbl)"
  have R: "rates ?st = ?R" using assms by (rule rates_scan)
  have dR: "distinct (map fst ?R)"
    using assms by (simp add: comp_def distinct_map_filter)
  have "tpm_loop rnd (map fst ?R) ?st [] =
     Inr ([] @ map (\<lambda>p. (fst p, if ratesum ?st = 0 then 0 else rnd (snd p / ratesum ?st))) ?R)"
    using dR
  proof (rule tpm_loop_pairs)
    show "fst ` set ?R \<inter> fst ` set [] = {}" by simp
    show "\<forall>p\<in>set ?R. map_of (rates ?st) (fst p) = Some (snd p)"
      unfolding R using dR by (auto intro!: map_of_is_SomeI simp del: distinct_map)
  qed
  then show ?thesis
    by (simp add: calculateTPM_def R comp_def Let_def cong: if_cong)
qed

subsection \<open>The sum of the TPM values\<close>

text \<open>
  C2, as the specification states it, fails in binary64 arithmetic: for the table
  \<open>[("c1",1000,100,0),("c2",500,150,0)]\<close> the rates are the doubles nearest to 0.1 and
  0.3, their sum is the double nearest to 0.4, and the two quotients are 0.25 and
  0.7499999999999999, which add up to \<open>1 - 2^-53\<close>, not to 1.
\<close>

theorem C2_counterexample:
  "wf_counts counts_rounding \<and>
   calculateTPM binary64 counts_rounding =
     Inr [(''c1'', 1 / 4), (''c2'', 6755399441055743 / 9007199254740992)] \<and>
   sum_list (map snd [(''c1'', 1 / 4 :: pyfloat), (''c2'', 6755399441055743 / 9007199254740992)])
     = 9007199254740991 / 9007199254740992 \<and>
   binary64 (1 / 4 + 6755399441055743 / 9007199254740992)
     = 9007199254740991 / 9007199254740992 \<and>
   (9007199254740991 / 9007199254740992 :: pyfloat) \<noteq> 1"
proof -
  have w: "wf_counts counts_rounding"
    by (simp add: wf_counts_def counts_rounding_def)
  have st: "tpm_scan binary64 counts_rounding =
      \<lparr>rates = [(''c1'', 3602879701896397 / 36028797018963968),
                (''c2'', 5404319552844595 / 18014398509481984)],
       ratesum = 3602879701896397 / 9007199254740992\<rparr>"
    by (simp add: tpm_scan_def tpm_line_def counts_rounding_def binary64_eval)
  have c: "calculateTPM binary64 counts_rounding =
     Inr [(''c1'', 1 / 4), (''c2'', 6755399441055743 / 9007199254740992)]"
    unfolding calculateTPM_def st by (simp add: dict_get_def binary64_eval)
  have e: "binary64 (1 / 4 + 6755399441055743 / 9007199254740992)
     = 9007199254740991 / 9007199254740992"
    by (simp add: binary64_eval)
  from w c e show ?thesis by simp
qed

text \<open>
  What does hold is a bound on the distance from 1. Every operation of \<open>calculateTPM\<close>
  returns the double nearest to the exact result, so it is off by a factor between
  \<open>1 - u\<close> and \<open>1 + u\<close> with \<open>u = 2^-53\<close>. The running sum of \<open>n\<close> rates is then within
  \<open>(1 - u)^n\<close> and \<open>(1 + u)^n\<close> of the exact sum of the rates, and the exact sum of the
  \<open>n\<close> rounded quotients is within \<open>1 - u\<close> and \<open>1 + u\<close> of the exact quotient of the
  two.
\<close>


lemma binary64_lower: "0 \<le> x \<Longrightarrow> (1 - 1 / 9007199254740992) * x \<le> binary64 x"
proof -
  assume a: "0 \<le> x"
  from binary64_error [OF a] have "x - binary64 x \<le> x / 9007199254740992"
    by (simp only: abs_le_iff) simp
  then show ?thesis by (simp add: algebra_simps)
qed

lemma binary64_upper: "0 \<le> x \<Longrightarrow> binary64 x \<le> (1 + 1 / 9007199254740992) * x"
proof -
  assume a: "0 \<le> x"
  from binary64_error [OF a] have "binary64 x - x \<le> x / 9007199254740992"
    by (simp only: abs_le_iff)
  then show ?thesis by (simp add: algebra_simps)
qed

lemma ratesum_fold:
  "ratesum (tpm_scan rnd tbl) =
     foldl (\<lambda>s r. rnd (s + r)) 0
       (map (\<lambda>l. rnd (cl_nreads l / cl_length l)) (filter (\<lambda>l. cl_length l \<noteq> 0) tbl))"
  by (induction tbl rule: rev_induct)
    (simp_all add: tpm_scan_snoc tpm_line_def Let_def tpm_scan_def)

lemma float_sum_bounds:
  fixes u :: rat
  assumes lo: "\<And>x. 0 \<le> x \<Longrightarrow> (1 - u) * x \<le> rnd x"
    and hi: "\<And>x. 0 \<le> x \<Longrightarrow> rnd x \<le> (1 + u) * x"
    and u: "0 \<le> u" "u \<le> 1"
    and rs: "\<forall>r\<in>set rs. 0 \<le> r" and acc: "0 \<le> acc"
  shows "(1 - u) ^ length rs * (acc + sum_list rs) \<le> foldl (\<lambda>s r. rnd (s + r)) acc rs \<and>
         foldl (\<lambda>s r. rnd (s + r)) acc rs \<le> (1 + u) ^ length rs * (acc + sum_list rs)"
  using rs acc
proof (induction rs arbitrary: acc)
  case Nil
  then show ?case by simp
next
  case (Cons r rs)
  let ?a = "rnd (acc + r)"
  let ?n = "length rs"
  let ?S = "sum_list rs"
  from Cons.prems have r0: "0 \<le> r" and rs0: "\<forall>r\<in>set rs. 0 \<le> r" by simp_all
  from rs0 have S0: "0 \<le> ?S" by (intro sum_list_nonneg) simp
  from Cons.prems r0 have ar: "0 \<le> acc + r" by simp
  have a_lo: "(1 - u) * (acc + r) \<le> ?a" using ar by (rule lo)
  have a_hi: "?a \<le> (1 + u) * (acc + r)" using ar by (rule hi)
  from u ar have "0 \<le> (1 - u) * (acc + r)" by simp
  with a_lo have a0: "0 \<le> ?a" by linarith
  note ih = Cons.IH [OF rs0 a0]
  have "(1 - u) * ?S \<le> 1 * ?S" using u S0 by (intro mult_right_mono) simp_all
  with a_lo have "(1 - u) * (acc + r) + (1 - u) * ?S \<le> ?a + ?S" by simp
  then have l1: "(1 - u) * (acc + (r + ?S)) \<le> ?a + ?S" by (simp add: algebra_simps)
  have "1 * ?S \<le> (1 + u) * ?S" using u S0 by (intro mult_right_mono) simp_all
  with a_hi have "?a + ?S \<le> (1 + u) * (acc + r) + (1 + u) * ?S" by simp
  then have h1: "?a + ?S \<le> (1 + u) * (acc + (r + ?S))" by (simp add: algebra_simps)
  have "(1 - u) ^ Suc ?n * (acc + (r + ?S)) = (1 - u) ^ ?n * ((1 - u) * (acc + (r + ?S)))"
    by simp
  also have "\<dots> \<le> (1 - u) ^ ?n * (?a + ?S)"
    using l1 u by (intro mult_left_mono) simp_all
  also have "\<dots> \<le> foldl (\<lambda>s r. rnd (s + r)) ?a rs" using ih by (rule conjunct1)
  finally have lower: "(1 - u) ^ Suc ?n * (acc + (r + ?S)) \<le> foldl (\<lambda>s r. rnd (s + r)) ?a rs" .
  have "foldl (\<lambda>s r. rnd (s + r)) ?a rs \<le> (1 + u) ^ ?n * (?a + ?S)" using ih by (rule conjunct2)
  also have "\<dots> \<le> (1 + u) ^ ?n * ((1 + u) * (acc + (r + ?S)))"
    using h1 u by (intro mult_left_mono) simp_all
  also have "\<dots> = (1 + u) ^ Suc ?n * (acc + (r + ?S))" by simp
  finally have upper: "foldl (\<lambda>s r. rnd (s + r)) ?a rs \<le> (1 + u) ^ Suc ?n * (acc + (r + ?S))" .
  from lower upper show ?case by simp
qed

lemma bernoulli_rat:
  fixes u :: rat
  assumes "0 \<le> u" and "u \<le> 1"
  shows "1 - of_nat n * u \<le> (1 - u) ^ n"
proof (induction n)
  case 0
  show ?case by simp
next
  case (Suc n)
  have "1 - of_nat (Suc n) * u \<le> (1 - of_nat n * u) * (1 - u)"
  proof -
    have "0 \<le> of_nat n * u * u" using assms by simp
    then show ?thesis by (simp add: algebra_simps)
  qed
  also have "\<dots> \<le> (1 - u) ^ n * (1 - u)"
    using Suc assms by (intro mult_right_mono) simp_all
  finally show ?case by (simp add: mult.commute)
qed

lemma tolerance_arith:
  fixes u R S T :: rat
  assumes u: "0 \<le> u" and nu: "2 * of_nat n * u \<le> 1" and u1: "u \<le> 1"
    and R: "0 < R"
    and Slo: "(1 - u) ^ n * R \<le> S" and Shi: "S \<le> (1 + u) ^ n * R"
    and Tlo: "(1 - u) * (R / S) \<le> T" and Thi: "T \<le> (1 + u) * (R / S)"
  shows "\<bar>T - 1\<bar> \<le> 2 * (of_nat n + 1) * u"
proof -
  define t :: rat where "t = of_nat n * u"
  define A where "A = (1 - u) ^ n"
  define B where "B = (1 + u) ^ n"
  have t0: "0 \<le> t" using u by (simp add: t_def)
  have t2: "2 * t \<le> 1" using nu by (simp add: t_def)
  have At: "1 - t \<le> A" unfolding A_def t_def using u u1 by (rule bernoulli_rat)
  with t2 have Apos: "0 < A" by linarith
  have Bpos: "0 < B" unfolding B_def using u by (intro zero_less_power) simp
  have AB: "A * B \<le> 1"
  proof -
    have "A * B = ((1 - u) * (1 + u)) ^ n" by (simp add: A_def B_def power_mult_distrib)
    also have "(1 - u) * (1 + u) = 1 - u * u" by (simp add: algebra_simps)
    also have "(1 - u * u) ^ n \<le> 1"
    proof (rule power_le_one)
      show "0 \<le> 1 - u * u" using u u1 mult_mono [of u 1 u 1] by simp
      show "1 - u * u \<le> 1" using u by simp
    qed
    finally show ?thesis .
  qed
  from Slo have Slo': "A * R \<le> S" by (simp add: A_def)
  from Shi have Shi': "S \<le> B * R" by (simp add: B_def)
  from Apos R have "0 < A * R" by simp
  with Slo' have Spos: "0 < S" by linarith
  define q where "q = R / S"
  have q0: "0 < q" using R Spos by (simp add: q_def)
  have qS: "q * S = R" using Spos by (simp add: q_def)
  have q_hi: "q * A \<le> 1"
  proof -
    have "q * (A * R) \<le> q * S" using Slo' q0 by (intro mult_left_mono) simp_all
    then have "(q * A) * R \<le> 1 * R" by (simp add: qS mult.assoc)
    from this R show ?thesis by (rule mult_right_le_imp_le)
  qed
  have q_lo: "1 \<le> q * B"
  proof -
    have "q * S \<le> q * (B * R)" using Shi' q0 by (intro mult_left_mono) simp_all
    then have "1 * R \<le> (q * B) * R" by (simp add: qS mult.assoc)
    from this R show ?thesis by (rule mult_right_le_imp_le)
  qed
  have q_up: "q * (1 - t) \<le> 1"
  proof -
    have "q * (1 - t) \<le> q * A" using At q0 by (intro mult_left_mono) simp_all
    with q_hi show ?thesis by linarith
  qed
  have q_dn: "1 - t \<le> q"
  proof -
    have "A \<le> A * (q * B)" using q_lo Apos mult_left_mono [of 1 "q * B" A] by simp
    also have "\<dots> = q * (A * B)" by (simp add: algebra_simps)
    also have "\<dots> \<le> q * 1" using AB q0 by (intro mult_left_mono) simp_all
    finally have "A \<le> q" by simp
    with At show ?thesis by linarith
  qed
  have upper: "T \<le> 1 + 2 * (t + u)"
  proof -
    have "(1 + u) * (q * (1 - t)) \<le> (1 + u) * 1" using q_up u by (intro mult_left_mono) simp_all
    then have a: "((1 + u) * q) * (1 - t) \<le> (1 + u)" by (simp add: mult.assoc)
    have "0 \<le> (t + u) * (1 - 2 * t)" using t0 t2 u by simp
    then have "1 + u \<le> (1 + 2 * (t + u)) * (1 - t)" by (simp add: algebra_simps)
    with a have "((1 + u) * q) * (1 - t) \<le> (1 + 2 * (t + u)) * (1 - t)" by linarith
    moreover have "0 < 1 - t" using t2 t0 by linarith
    ultimately have "(1 + u) * q \<le> 1 + 2 * (t + u)" by (rule mult_right_le_imp_le)
    with Thi show ?thesis unfolding q_def by linarith
  qed
  have lower: "1 - 2 * (t + u) \<le> T"
  proof -
    have "(1 - u) * (1 - t) \<le> (1 - u) * q" using q_dn u1 by (intro mult_left_mono) simp_all
    moreover have "1 - (t + u) \<le> (1 - u) * (1 - t)"
    proof -
      have "0 \<le> u * t" using u t0 by simp
      then show ?thesis by (simp add: algebra_simps)
    qed
    ultimately have "1 - (t + u) \<le> (1 - u) * q" by linarith
    with Tlo have "1 - (t + u) \<le> T" unfolding q_def by linarith
    moreover have "1 - 2 * (t + u) \<le> 1 - (t + u)" using t0 u by simp
    ultimately show ?thesis by (rule order_trans [rotated])
  qed
  have "2 * (of_nat n + 1) * u = 2 * (t + u)" by (simp add: t_def algebra_simps)
  with upper lower show ?thesis by (simp add: abs_le_iff)
qed

lemma member_le_sum_list_rat:
  fixes xs :: "rat list"
  assumes "\<forall>x\<in>set xs. 0 \<le> x" and "x \<in> set xs"
  shows "x \<le> sum_list xs"
  using assms
proof (induction xs)
  case Nil
  then show ?case by simp
next
  case (Cons y ys)
  from Cons.prems have y0: "0 \<le> y" and ys0: "\<forall>x\<in>set ys. 0 \<le> x" by simp_all
  from ys0 have s0: "0 \<le> sum_list ys" by (intro sum_list_nonneg) simp
  show ?case
  proof (cases "x = y")
    case True
    with s0 show ?thesis by simp
  next
    case False
    with Cons.prems have "x \<in> set ys" by simp
    from Cons.IH [OF ys0 this] y0 show ?thesis by simp
  qed
qed

text \<open>
  C2, amended. For a counts table of the data model, \<open>calculateTPM\<close> in binary64
  arithmetic returns a dictionary. If some record has a positive read count and a
  positive length, the exact sum of the returned TPM values differs from 1 by at most
  \<open>(n + 1) * 2^-52\<close>, where \<open>n\<close> is the number of entries of the dictionary; otherwise
  every returned value is 0 and the sum is 0.
\<close>

theorem C2_tpm_sum_within_rounding:
  assumes "wf_counts tbl"
  shows "\<exists>m. calculateTPM binary64 tbl = Inr m \<and>
     (if \<exists>l\<in>set tbl. 0 < cl_nreads l \<and> 0 < cl_length l
      then \<bar>sum_list (map snd m) - 1\<bar> \<le> (of_nat (length m) + 1) / 4503599627370496
      else sum_list (map snd m) = 0)"
proof -
  define u :: rat where "u = 1 / 9007199254740992"
  define L where "L = filter (\<lambda>l. cl_length l \<noteq> 0) tbl"
  define rate where "rate l = binary64 (cl_nreads l / cl_length l)" for l :: count_line
  define S where "S = ratesum (tpm_scan binary64 tbl)"
  define R where "R = sum_list (map rate L)"
  define m where "m = map (\<lambda>l. (cl_cluster l, if S = 0 then 0 else binary64 (rate l / S))) L"
  define n where "n = length L"
  from assms have d: "distinct (map cl_cluster tbl)"
    and len: "length tbl \<le> 4503599627370496"
    and nn: "\<forall>l\<in>set tbl. 0 \<le> cl_length l \<and> 0 \<le> cl_nreads l"
    by (simp_all add: wf_counts_def)
  have res: "calculateTPM binary64 tbl = Inr m"
    using calculateTPM_distinct [OF d, of binary64] by (simp add: m_def L_def rate_def S_def)
  have lm: "length m = n" by (simp add: m_def n_def)
  have u0: "0 \<le> u" and u1: "u \<le> 1" by (simp_all add: u_def)
  have "n \<le> length tbl" by (simp add: n_def L_def)
  with len have "n \<le> 4503599627370496" by simp
  then have "(of_nat n :: rat) \<le> 4503599627370496" by (metis of_nat_le_iff of_nat_numeral)
  then have nu: "2 * of_nat n * u \<le> 1" by (simp add: u_def)
  have q0: "0 \<le> cl_nreads l / cl_length l" if "l \<in> set L" for l
    using that nn by (simp add: L_def)
  have rate0: "0 \<le> rate l" if "l \<in> set L" for l
    unfolding rate_def using q0 [OF that] by (rule binary64_nonneg)
  then have rs0: "\<forall>r\<in>set (map rate L). 0 \<le> r" by simp
  have lo: "\<And>x. 0 \<le> x \<Longrightarrow> (1 - u) * x \<le> binary64 x"
    unfolding u_def by (rule binary64_lower)
  have hi: "\<And>x. 0 \<le> x \<Longrightarrow> binary64 x \<le> (1 + u) * x"
    unfolding u_def by (rule binary64_upper)
  have Sfold: "S = foldl (\<lambda>s r. binary64 (s + r)) 0 (map rate L)"
    unfolding S_def ratesum_fold L_def rate_def by (simp add: comp_def)
  from float_sum_bounds [of u binary64 "map rate L" 0, OF lo hi u0 u1 rs0]
  have Slo: "(1 - u) ^ n * R \<le> S" and Shi: "S \<le> (1 + u) ^ n * R"
    by (simp_all add: Sfold R_def n_def)
  have R0: "0 \<le> R" unfolding R_def using rs0 by (intro sum_list_nonneg) auto
  show ?thesis
  proof (cases "\<exists>l\<in>set tbl. 0 < cl_nreads l \<and> 0 < cl_length l")
    case True
    then obtain l where l: "l \<in> set tbl" "0 < cl_nreads l" "0 < cl_length l" by blast
    then have lL: "l \<in> set L" by (simp add: L_def)
    from l have "0 < rate l" unfolding rate_def by (intro binary64_pos) simp
    moreover have "rate l \<le> R"
      unfolding R_def using rs0 lL by (intro member_le_sum_list_rat) simp_all
    ultimately have Rpos: "0 < R" by linarith
    have "0 < (1 - u) ^ n" by (intro zero_less_power) (simp add: u_def)
    with Rpos have "0 < (1 - u) ^ n * R" by simp
    with Slo have Spos: "0 < S" by linarith
    define T where "T = sum_list (map snd m)"
    have T: "T = (\<Sum>l\<leftarrow>L. binary64 (rate l / S))"
      using Spos by (simp add: T_def m_def comp_def)
    have quot: "(\<Sum>l\<leftarrow>L. rate l / S) = R / S"
    proof -
      have "(\<Sum>l\<leftarrow>L. rate l / S) = (\<Sum>l\<leftarrow>L. rate l * inverse S)"
        by (simp add: divide_inverse)
      also have "\<dots> = (\<Sum>l\<leftarrow>L. rate l) * inverse S" by (rule sum_list_mult_const)
      finally show ?thesis by (simp add: R_def divide_inverse)
    qed
    have t0: "0 \<le> rate l / S" if "l \<in> set L" for l
      using rate0 [OF that] Spos by simp
    have "(\<Sum>l\<leftarrow>L. (1 - u) * (rate l / S)) \<le> (\<Sum>l\<leftarrow>L. binary64 (rate l / S))"
      by (rule sum_list_mono) (rule lo, rule t0)
    moreover have "(\<Sum>l\<leftarrow>L. (1 - u) * (rate l / S)) = (1 - u) * (R / S)"
      unfolding quot [symmetric] by (rule sum_list_const_mult)
    ultimately have Tlo: "(1 - u) * (R / S) \<le> T" unfolding T by simp
    have "(\<Sum>l\<leftarrow>L. binary64 (rate l / S)) \<le> (\<Sum>l\<leftarrow>L. (1 + u) * (rate l / S))"
      by (rule sum_list_mono) (rule hi, rule t0)
    moreover have "(\<Sum>l\<leftarrow>L. (1 + u) * (rate l / S)) = (1 + u) * (R / S)"
      unfolding quot [symmetric] by (rule sum_list_const_mult)
    ultimately have Thi: "T \<le> (1 + u) * (R / S)" unfolding T by simp
    from tolerance_arith [OF u0 nu u1 Rpos Slo Shi Tlo Thi]
    have "\<bar>T - 1\<bar> \<le> 2 * (of_nat n + 1) * u" .
    also have "2 * (of_nat n + 1) * u = (of_nat n + 1) / 4503599627370496"
      by (simp add: u_def)
    finally have "\<bar>sum_list (map snd m) - 1\<bar> \<le> (of_nat (length m) + 1) / 4503599627370496"
      unfolding T_def lm .
    with res True show ?thesis by auto
  next
    case False
    have "rate l = 0" if "l \<in> set L" for l
    proof -
      from that have lt: "l \<in> set tbl" "cl_length l \<noteq> 0" by (simp_all add: L_def)
      with nn have "0 < cl_length l" "0 \<le> cl_nreads l" by (simp_all add: less_le)
      with False lt(1) have "cl_nreads l = 0" by (metis less_le)
      then show ?thesis by (simp add: rate_def binary64_0)
    qed
    then have "\<forall>r\<in>set (map rate L). r = 0" by auto
    then have "R = 0" unfolding R_def by (induction L) simp_all
    with Slo Shi have "0 \<le> S" "S \<le> 0" by simp_all
    then have "S = 0" by simp
    then have "sum_list (map snd m) = 0" by (simp add: m_def comp_def)
    with res False show ?thesis by auto
  qed
qed

theorem C2_tpm_sum_within_rounding_witness:
  "wf_counts counts_scenario1 \<and>
   (\<exists>m. calculateTPM binary64 counts_scenario1 = Inr m \<and>
      \<bar>sum_list (map snd m) - 1\<bar> \<le> (of_nat (length m) + 1) / 4503599627370496) \<and>
   wf_counts counts_no_reads \<and>
   (\<exists>m. calculateTPM binary64 counts_no_reads = Inr m \<and> sum_list (map snd m) = 0)"
proof -
  have w1: "wf_counts counts_scenario1" by (simp add: wf_counts_def counts_scenario1_def)
  have w2: "wf_counts counts_no_reads" by (simp add: wf_counts_def counts_no_reads_def)
  have p1: "\<exists>l\<in>set counts_scenario1. 0 < cl_nreads l \<and> 0 < cl_length l"
    by (simp add: counts_scenario1_def)
  have p2: "\<not> (\<exists>l\<in>set counts_no_reads. 0 < cl_nreads l \<and> 0 < cl_length l)"
    by (simp add: counts_no_reads_def)
  from C2_tpm_sum_within_rounding [OF w1] p1
  have a: "\<exists>m. calculateTPM binary64 counts_scenario1 = Inr m \<and>
      \<bar>sum_list (map snd m) - 1\<bar> \<le> (of_nat (length m) + 1) / 4503599627370496" by simp
  from C2_tpm_sum_within_rounding [OF w2] p2
  have b: "\<exists>m. calculateTPM binary64 counts_no_reads = Inr m \<and> sum_list (map snd m) = 0" by simp
  from w1 a w2 b show ?thesis by blast
qed

subsection \<open>\<open>calculateRPKM\<close> never raises\<close>

lemma rpkm_scan_snoc: "rpkm_scan (tbl @ [l]) = rpkm_line (rpkm_scan tbl) l"
  by (simp add: rpkm_scan_def)

lemma sum_reads_scan:
  "sum_reads (rpkm_scan tbl) = sum_list (map cl_nreads (filter (\<lambda>l. \<not> star_in_line l) tbl))"
  by (induction tbl rule: rev_induct) (simp_all add: rpkm_scan_snoc rpkm_line_def rpkm_scan_def)

lemma read_counts_scan:
  "map_of (read_counts (rpkm_scan tbl)) =
     map_of (rev (map (\<lambda>l. (cl_cluster l, cl_nreads l)) (filter (\<lambda>l. \<not> star_in_line l) tbl)))"
  by (induction tbl rule: rev_induct)
    (simp_all add: rpkm_scan_snoc rpkm_line_def rpkm_scan_def AList.update_conv')

lemma cluster_lengths_scan:
  "map_of (cluster_lengths (rpkm_scan tbl)) =
     map_of (rev (map (\<lambda>l. (cl_cluster l, cl_length l)) (filter (\<lambda>l. \<not> star_in_line l) tbl)))"
  by (induction tbl rule: rev_induct)
    (simp_all add: rpkm_scan_snoc rpkm_line_def rpkm_scan_def AList.update_conv')

lemma map_of_rev_None:
  "map_of (rev (map (\<lambda>l. (c l, f l)) xs)) k = None \<longleftrightarrow> k \<notin> c ` set xs"
  by (simp add: map_of_eq_None_iff image_image)

lemma map_of_rev_distinct:
  assumes "distinct (map c tbl)" and "l \<in> set tbl"
  shows "map_of (rev (map (\<lambda>l. (c l, f l)) (filter P tbl))) (c l) =
           (if P l then Some (f l) else None)"
proof (cases "P l")
  case True
  have "distinct (map fst (rev (map (\<lambda>l. (c l, f l)) (filter P tbl))))"
    using assms(1) by (simp add: rev_map [symmetric] comp_def distinct_map_filter)
  moreover have "(c l, f l) \<in> set (rev (map (\<lambda>l. (c l, f l)) (filter P tbl)))"
    using assms(2) True by auto
  ultimately show ?thesis using True by (simp add: map_of_is_SomeI del: distinct_map distinct_rev)
next
  case False
  have "c l \<notin> c ` set (filter P tbl)"
  proof
    assume "c l \<in> c ` set (filter P tbl)"
    then obtain l' where l': "l' \<in> set tbl" "P l'" "c l' = c l" by auto
    from assms(1) have "inj_on c (set tbl)" by (simp add: distinct_map)
    with l' assms(2) have "l' = l" by (auto dest: inj_onD)
    with l' False show False by simp
  qed
  with False show ?thesis by (simp add: map_of_rev_None)
qed

lemma rpkm_loop_Inr:
  assumes "\<forall>k\<in>set keys. map_of (read_counts st) k \<noteq> None \<and> map_of (cluster_lengths st) k \<noteq> None"
  shows "\<exists>m. rpkm_loop keys st out = Inr m \<and>
           (\<forall>k. map_of m k =
              (if k \<in> set keys
               then (case (map_of (read_counts st) k, map_of (cluster_lengths st) k) of
                       (Some n, Some len) \<Rightarrow> Some (rpkm_value (sum_reads st) n len) | _ \<Rightarrow> None)
               else map_of out k))"
  using assms
proof (induction keys arbitrary: out)
  case Nil
  show ?case by simp
next
  case (Cons key keys)
  from Cons.prems obtain n len where k: "map_of (read_counts st) key = Some n"
    "map_of (cluster_lengths st) key = Some len" by auto
  from Cons.prems have rest: "\<forall>k\<in>set keys. map_of (read_counts st) k \<noteq> None
      \<and> map_of (cluster_lengths st) k \<noteq> None" by simp
  from Cons.IH [OF rest, of "AList.update key (rpkm_value (sum_reads st) n len) out"]
  obtain m where m: "rpkm_loop keys st (AList.update key (rpkm_value (sum_reads st) n len) out) = Inr m"
    "\<forall>k. map_of m k = (if k \<in> set keys
               then (case (map_of (read_counts st) k, map_of (cluster_lengths st) k) of
                       (Some n, Some len) \<Rightarrow> Some (rpkm_value (sum_reads st) n len) | _ \<Rightarrow> None)
               else map_of (AList.update key (rpkm_value (sum_reads st) n len) out) k)" by blast
  show ?case
    using k m by (auto simp: dict_get_def AList.update_conv' rpkm_value_def)
qed

lemma calculateRPKM_Inr:
  "\<exists>m. calculateRPKM tbl = Inr m \<and>
     (\<forall>k. map_of m k =
        (case (map_of (read_counts (rpkm_scan tbl)) k, map_of (cluster_lengths (rpkm_scan tbl)) k) of
           (Some n, Some len) \<Rightarrow> Some (rpkm_value (sum_reads (rpkm_scan tbl)) n len)
         | _ \<Rightarrow> None))"
proof -
  let ?st = "rpkm_scan tbl"
  let ?keys = "map fst (read_counts ?st)"
  have dom: "\<And>k. map_of (read_counts ?st) k = None \<longleftrightarrow> map_of (cluster_lengths ?st) k = None"
    by (simp only: read_counts_scan cluster_lengths_scan map_of_rev_None)
  have pre: "\<forall>k\<in>set ?keys. map_of (read_counts ?st) k \<noteq> None \<and> map_of (cluster_lengths ?st) k \<noteq> None"
    using dom by (auto simp: map_of_eq_None_iff)
  from rpkm_loop_Inr [OF pre, of "[]"] obtain m where
    m: "rpkm_loop ?keys ?st [] = Inr m"
    and v: "\<forall>k. map_of m k =
              (if k \<in> set ?keys
               then (case (map_of (read_counts ?st) k, map_of (cluster_lengths ?st) k) of
                       (Some n, Some len) \<Rightarrow> Some (rpkm_value (sum_reads ?st) n len) | _ \<Rightarrow> None)
               else map_of [] k)" by blast
  have "map_of m k =
        (case (map_of (read_counts ?st) k, map_of (cluster_lengths ?st) k) of
           (Some n, Some len) \<Rightarrow> Some (rpkm_value (sum_reads ?st) n len) | _ \<Rightarrow> None)" for k
  proof (cases "k \<in> set ?keys")
    case True
    with v show ?thesis by simp
  next
    case False
    then have "map_of (read_counts ?st) k = None" by (simp add: map_of_eq_None_iff)
    with v False show ?thesis by simp
  qed
  with m show ?thesis by (auto simp: calculateRPKM_def)
qed

lemma calculateTPM_absent:
  assumes "distinct (map cl_cluster tbl)" and "l \<in> set tbl"
  shows "\<exists>t. calculateTPM rnd tbl = Inr t \<and> (map_of t (cl_cluster l) = None \<longleftrightarrow> cl_length l = 0)"
proof -
  from assms(1) have inj: "inj_on cl_cluster (set tbl)" by (simp add: distinct_map)
  have "cl_cluster l \<in> cl_cluster ` set (filter (\<lambda>l. cl_length l \<noteq> 0) tbl) \<longleftrightarrow> cl_length l \<noteq> 0"
    using assms(2) inj by (auto dest: inj_onD)
  then show ?thesis
    unfolding calculateTPM_distinct [OF assms(1), of rnd]
    by (simp add: map_of_eq_None_iff image_image)
qed


text \<open>
  C8, as the specification states it, fails: a record of length 0 is not in the mapping
  that \<open>calculateTPM\<close> returns, so it is not there with the value 0.
\<close>

theorem C8_counterexample:
  "zero_length_line \<in> set counts_zero_length \<and> cl_length zero_length_line = 0 \<and>
   calculateTPM binary64 counts_zero_length = Inr [(''c1'', 1)] \<and>
   map_of [(''c1'', 1 :: pyfloat)] (cl_cluster zero_length_line) = None"
proof -
  have st: "tpm_scan binary64 counts_zero_length =
      \<lparr>rates = [(''c1'', 3602879701896397 / 36028797018963968)],
       ratesum = 3602879701896397 / 36028797018963968\<rparr>"
    by (simp add: tpm_scan_def tpm_line_def counts_zero_length_def zero_length_line_def
        star_line_def binary64_eval)
  have c: "calculateTPM binary64 counts_zero_length = Inr [(''c1'', 1)]"
    unfolding calculateTPM_def st by (simp add: dict_get_def binary64_eval)
  from c show ?thesis
    by (simp add: counts_zero_length_def zero_length_line_def)
qed

text \<open>
  C8, amended. For every counts table with one record per sequence that contains a record
  of length 0, \<open>calculateTPM\<close> and \<open>calculateRPKM\<close> both return a mapping;
  \<open>calculateTPM\<close> leaves the sequence out of its mapping, and \<open>calculateRPKM\<close> gives it
  the value 0, unless the line contains a star, in which case it leaves the sequence out
  as well.
\<close>

theorem C8_zero_length_record:
  assumes "distinct (map cl_cluster tbl)" and "l \<in> set tbl" and "cl_length l = 0"
  shows "\<exists>t r. calculateTPM rnd tbl = Inr t \<and> calculateRPKM tbl = Inr r \<and>
           map_of t (cl_cluster l) = None \<and>
           map_of r (cl_cluster l) = (if star_in_line l then None else Some 0)"
proof -
  from calculateTPM_absent [OF assms(1,2), of rnd] assms(3) obtain t where
    t: "calculateTPM rnd tbl = Inr t" "map_of t (cl_cluster l) = None" by auto
  from calculateRPKM_Inr [of tbl] obtain r where
    r: "calculateRPKM tbl = Inr r"
    and v: "\<forall>k. map_of r k =
        (case (map_of (read_counts (rpkm_scan tbl)) k, map_of (cluster_lengths (rpkm_scan tbl)) k) of
           (Some n, Some len) \<Rightarrow> Some (rpkm_value (sum_reads (rpkm_scan tbl)) n len)
         | _ \<Rightarrow> None)" by blast
  have "map_of r (cl_cluster l) = (if star_in_line l then None else Some 0)"
    using v assms(3)
    by (simp add: read_counts_scan cluster_lengths_scan map_of_rev_distinct [OF assms(1,2)]
        rpkm_value_def)
  with t r show ?thesis by blast
qed


theorem C8_zero_length_record_witness:
  "distinct (map cl_cluster counts_zero_length) \<and>
   zero_length_line \<in> set counts_zero_length \<and> cl_length zero_length_line = 0 \<and>
   \<not> star_in_line zero_length_line \<and>
   (\<exists>t r. calculateTPM binary64 counts_zero_length = Inr t \<and> calculateRPKM counts_zero_length = Inr r \<and>
      map_of t ''c0'' = None \<and> map_of r ''c0'' = Some 0) \<and>
   star_line \<in> set counts_zero_length \<and> cl_length star_line = 0 \<and> star_in_line star_line \<and>
   (\<exists>t r. calculateTPM binary64 counts_zero_length = Inr t \<and> calculateRPKM counts_zero_length = Inr r \<and>
      map_of t ''*'' = None \<and> map_of r ''*'' = None)"
proof -
  have d: "distinct (map cl_cluster counts_zero_length)"
    by (simp add: counts_zero_length_def zero_length_line_def star_line_def)
  have z: "zero_length_line \<in> set counts_zero_length" "cl_length zero_length_line = 0"
    by (simp_all add: counts_zero_length_def zero_length_line_def)
  have nz: "\<not> star_in_line zero_length_line" "cl_cluster zero_length_line = ''c0''"
    by (simp_all add: star_in_line_def zero_length_line_def)
  have s: "star_line \<in> set counts_zero_length" "cl_length star_line = 0"
    by (simp_all add: counts_zero_length_def star_line_def)
  have ss: "star_in_line star_line" "cl_cluster star_line = ''*''"
    by (simp_all add: star_in_line_def star_line_def)
  from C8_zero_length_record [OF d z, of binary64] nz
  have a: "\<exists>t r. calculateTPM binary64 counts_zero_length = Inr t \<and> calculateRPKM counts_zero_length = Inr r \<and>
      map_of t ''c0'' = None \<and> map_of r ''c0'' = Some 0" by simp
  from C8_zero_length_record [OF d s, of binary64] ss
  have b: "\<exists>t r. calculateTPM binary64 counts_zero_length = Inr t \<and> calculateRPKM counts_zero_length = Inr r \<and>
      map_of t ''*'' = None \<and> map_of r ''*'' = None" by simp
  from d z nz(1) a s ss(1) b show ?thesis by blast
qed


subsection \<open>Lines with a star\<close>

lemma rpkm_fold_remove1:
  "star_in_line l \<Longrightarrow> foldl rpkm_line st (remove1 l tbl) = foldl rpkm_line st tbl"
  by (induction tbl arbitrary: st) (auto simp: rpkm_line_def)

lemma rpkm_scan_remove1: "star_in_line l \<Longrightarrow> rpkm_scan (remove1 l tbl) = rpkm_scan tbl"
  by (simp add: rpkm_scan_def rpkm_fold_remove1)

lemma ratesum_remove1:
  assumes "l \<in> set tbl" and "cl_length l \<noteq> 0"
  shows "ratesum (tpm_scan exact tbl) = ratesum (tpm_scan exact (remove1 l tbl)) + cl_nreads l / cl_length l"
proof -
  have "l \<in> set (filter (\<lambda>l. cl_length l \<noteq> 0) tbl)" using assms by simp
  from sum_list_map_remove1 [OF this, of "\<lambda>l. cl_nreads l / cl_length l"]
  show ?thesis by (simp add: ratesum_scan filter_remove1)
qed


text \<open>
  C9. In a counts table with one record per sequence, a line that contains a star has no
  effect on \<open>calculateRPKM\<close>: the result and the read total are those of the table without
  the line, and the sequence of the line is not a key of the returned mapping.
  \<open>calculateTPM\<close> does not exclude it: when its length is positive, its rate is part of
  the rate sum and its sequence is a key of the TPM mapping.
\<close>

theorem C9_star_lines:
  assumes "distinct (map cl_cluster tbl)" and "l \<in> set tbl" and "star_in_line l"
  shows "calculateRPKM tbl = calculateRPKM (remove1 l tbl) \<and>
         sum_reads (rpkm_scan tbl) = sum_reads (rpkm_scan (remove1 l tbl)) \<and>
         (\<exists>r. calculateRPKM tbl = Inr r \<and> map_of r (cl_cluster l) = None) \<and>
         (0 < cl_length l \<longrightarrow>
            ratesum (tpm_scan exact tbl) =
              ratesum (tpm_scan exact (remove1 l tbl)) + cl_nreads l / cl_length l \<and>
            (\<exists>t. calculateTPM exact tbl = Inr t \<and> map_of t (cl_cluster l) \<noteq> None))"
proof -
  have same: "rpkm_scan (remove1 l tbl) = rpkm_scan tbl"
    using assms(3) by (rule rpkm_scan_remove1)
  then have a: "calculateRPKM tbl = calculateRPKM (remove1 l tbl)"
    by (simp add: calculateRPKM_def)
  from calculateRPKM_Inr [of tbl] obtain r where
    r: "calculateRPKM tbl = Inr r"
    and v: "\<forall>k. map_of r k =
        (case (map_of (read_counts (rpkm_scan tbl)) k, map_of (cluster_lengths (rpkm_scan tbl)) k) of
           (Some n, Some len) \<Rightarrow> Some (rpkm_value (sum_reads (rpkm_scan tbl)) n len)
         | _ \<Rightarrow> None)" by blast
  have "map_of r (cl_cluster l) = None"
    using v assms(3)
    by (simp add: read_counts_scan map_of_rev_distinct [OF assms(1,2)])
  with r have b: "\<exists>r. calculateRPKM tbl = Inr r \<and> map_of r (cl_cluster l) = None" by blast
  have c: "ratesum (tpm_scan exact tbl) =
              ratesum (tpm_scan exact (remove1 l tbl)) + cl_nreads l / cl_length l \<and>
            (\<exists>t. calculateTPM exact tbl = Inr t \<and> map_of t (cl_cluster l) \<noteq> None)"
    if "0 < cl_length l"
  proof -
    from that have nz: "cl_length l \<noteq> 0" by simp
    from calculateTPM_absent [OF assms(1,2)] nz
    have "\<exists>t. calculateTPM exact tbl = Inr t \<and> map_of t (cl_cluster l) \<noteq> None" by auto
    with ratesum_remove1 [OF assms(2) nz] show ?thesis by simp
  qed
  from a same b c show ?thesis by simp
qed

theorem C9_star_lines_witness:
  "distinct (map cl_cluster counts_starred) \<and> starred_line \<in> set counts_starred \<and>
   star_in_line starred_line \<and> 0 < cl_length starred_line \<and>
   calculateRPKM counts_starred = calculateRPKM (remove1 starred_line counts_starred) \<and>
   sum_reads (rpkm_scan counts_starred) = 100 \<and>
   (\<exists>r. calculateRPKM counts_starred = Inr r \<and> map_of r ''c2'' = None) \<and>
   ratesum (tpm_scan exact counts_starred) = 1 / 10 + 150 / 500 \<and>
   (\<exists>t. calculateTPM exact counts_starred = Inr t \<and> map_of t ''c2'' \<noteq> None)"
proof -
  have d: "distinct (map cl_cluster counts_starred)"
    by (simp add: counts_starred_def starred_line_def)
  have i: "starred_line \<in> set counts_starred" by (simp add: counts_starred_def)
  have s: "star_in_line starred_line" by (simp add: star_in_line_def starred_line_def)
  have p: "0 < cl_length starred_line" by (simp add: starred_line_def)
  have c: "cl_cluster starred_line = ''c2''" by (simp add: starred_line_def)
  have rm: "remove1 starred_line counts_starred =
      [\<lparr>cl_cluster = ''c1'', cl_length = 1000, cl_nreads = 100, cl_nnoreads = ''0''\<rparr>]"
    by (simp add: counts_starred_def starred_line_def)
  have sr: "sum_reads (rpkm_scan (remove1 starred_line counts_starred)) = 100"
    unfolding rm by (simp add: rpkm_scan_def rpkm_line_def star_in_line_def)
  have rs: "ratesum (tpm_scan exact (remove1 starred_line counts_starred)) = 1 / 10"
    unfolding rm by (simp add: tpm_scan_def tpm_line_def Let_def exact_def)
  have v: "cl_nreads starred_line / cl_length starred_line = 150 / 500"
    by (simp add: starred_line_def)
  note main = C9_star_lines [OF d i s]
  from main have e1: "calculateRPKM counts_starred = calculateRPKM (remove1 starred_line counts_starred)"
    by (rule conjunct1)
  from main sr have e2: "sum_reads (rpkm_scan counts_starred) = 100" by simp
  from main c have e3: "\<exists>r. calculateRPKM counts_starred = Inr r \<and> map_of r ''c2'' = None"
    by metis
  from main p have "ratesum (tpm_scan exact counts_starred) =
      ratesum (tpm_scan exact (remove1 starred_line counts_starred))
        + cl_nreads starred_line / cl_length starred_line" by blast
  with rs v have e4: "ratesum (tpm_scan exact counts_starred) = 1 / 10 + 150 / 500" by simp
  from main p c have e5: "\<exists>t. calculateTPM exact counts_starred = Inr t \<and> map_of t ''c2'' \<noteq> None"
    by metis
  from d i s p e1 e2 e3 e4 e5 show ?thesis by blast
qed

end
